theory Spec2Isabelle
  imports Main "HOL-Library.Sublist" "HOL-Library.Word"
begin

section \<open>Streaming content deduplication\<close>

text \<open>
  Two implementations of the delta computation live in the repository:
  \<^item> \<open>delta_by_prefix\<close> in \<open>src/core/delta_utils.py\<close> (with its alias
    \<open>_delta_by_prefix\<close>), and
  \<^item> \<open>_delta_by_prefix\<close> in \<open>src/integrations/replicate.py\<close>, modelled here as
    \<open>replicate_delta_by_prefix\<close>.
  Python strings are sequences of code points; every operation used here
  (\<open>startswith\<close>, \<open>endswith\<close>, \<open>find\<close>, slicing, \<open>len\<close>) treats them as plain
  sequences, so a \<open>string\<close> (a list of characters) is a faithful carrier.
\<close>

text \<open>\<open>s.find(sub)\<close>: the lowest index at which \<open>sub\<close> occurs in \<open>s\<close>, or \<open>-1\<close>.\<close>

fun find_at :: "nat \<Rightarrow> string \<Rightarrow> string \<Rightarrow> int" where
  "find_at i sub [] = (if sub = [] then int i else - 1)"
| "find_at i sub (c # cs) =
     (if prefix sub (c # cs) then int i else find_at (Suc i) sub cs)"

definition str_find :: "string \<Rightarrow> string \<Rightarrow> int" where
  "str_find s sub = find_at 0 sub s"

text \<open>
  The loop \<open>for length in range(max_overlap, 0, -1)\<close>: it tries the overlap lengths
  from the largest down to 1 and returns at the first one for which \<open>previous\<close>
  ends with \<open>current[:length]\<close>. \<open>None\<close> means that the loop ran to its end.
\<close>

fun overlap_loop :: "string \<Rightarrow> string \<Rightarrow> nat \<Rightarrow> (string \<times> string) option" where
  "overlap_loop previous current 0 = None"
| "overlap_loop previous current (Suc n) =
     (if suffix (take (Suc n) current) previous
      then Some (previous @ drop (Suc n) current, drop (Suc n) current)
      else overlap_loop previous current n)"

text \<open>Case 2 of \<open>delta_by_prefix\<close>: \<open>None\<close> when the branch does not return.\<close>

definition substring_case :: "string \<Rightarrow> string \<Rightarrow> (string \<times> string) option" where
  "substring_case previous current =
     (let idx = str_find current previous in
      if idx > 0 \<and> length previous < length current then
        (let delta = drop (nat idx + length previous) current in
         if delta \<noteq> [] then Some (previous @ delta, delta) else None)
      else None)"

definition delta_by_prefix :: "string \<Rightarrow> string \<Rightarrow> string \<times> string" where
  "delta_by_prefix previous current =
     (if current = [] then (previous, [])
      else if previous = [] then (current, current)
      else if prefix previous current then
        (let delta = drop (length previous) current in
         if delta \<noteq> [] then (current, delta) else (previous, []))
      else
        (case substring_case previous current of
           Some r \<Rightarrow> r
         | None \<Rightarrow>
             (case overlap_loop previous current (min (length previous) (length current)) of
                Some r \<Rightarrow> r
              | None \<Rightarrow> (previous @ current, current))))"

definition replicate_delta_by_prefix :: "string \<Rightarrow> string \<Rightarrow> string \<times> string" where
  "replicate_delta_by_prefix previous current =
     (if current = [] then (previous, [])
      else if previous = [] then (current, current)
      else if prefix previous current then (current, drop (length previous) current)
      else if length current < 32 then (previous @ current, current)
      else
        (case overlap_loop previous current
                (min (min (length previous) (length current)) 4096) of
           Some r \<Rightarrow> r
         | None \<Rightarrow> (previous @ current, current)))"

text \<open>
  The caller \<open>_iter_text\<close> of \<open>replicate.py\<close> starts from the empty string, passes every
  non-empty text through the delta function together with the content accumulated so
  far, and yields the non-empty deltas (\<open>_dedupe_assistant_content_events\<close> threads
  the accumulated content in the same way). \<open>iter_text\<close> returns the final accumulated
  content and the deltas yielded, in order; the delta function is a parameter, so that
  both implementations can be run through it.
\<close>

fun iter_text ::
  "(string \<Rightarrow> string \<Rightarrow> string \<times> string) \<Rightarrow> string \<Rightarrow> string list \<Rightarrow> string \<times> string list"
where
  "iter_text f last_text [] = (last_text, [])"
| "iter_text f last_text (t # ts) =
     (if t \<noteq> [] then
        (let (last_text', delta) = f last_text t;
             (final, yielded) = iter_text f last_text' ts
         in (final, if delta \<noteq> [] then delta # yielded else yielded))
      else iter_text f last_text ts)"

section \<open>Properties of the delta computation\<close>

lemma overlap_loop_Some:
  "overlap_loop p c n = Some r \<Longrightarrow> fst r = p @ snd r \<and> suffix (snd r) c"
  by (induction n) (auto split: if_splits simp: suffix_drop)

lemma substring_case_Some:
  "substring_case p c = Some r \<Longrightarrow> fst r = p @ snd r \<and> suffix (snd r) c"
  by (auto simp: substring_case_def Let_def suffix_drop split: if_splits)

lemma delta_by_prefix_parts:
  "fst (delta_by_prefix p c) = p @ snd (delta_by_prefix p c) \<and>
   suffix (snd (delta_by_prefix p c)) c"
  unfolding delta_by_prefix_def
  by (auto simp: Let_def suffix_drop prefix_def split: option.splits
      dest: overlap_loop_Some substring_case_Some)

lemma replicate_delta_by_prefix_parts:
  "fst (replicate_delta_by_prefix p c) = p @ snd (replicate_delta_by_prefix p c) \<and>
   suffix (snd (replicate_delta_by_prefix p c)) c"
  unfolding replicate_delta_by_prefix_def
  by (auto simp: Let_def suffix_drop prefix_def split: option.splits dest: overlap_loop_Some)

lemma iter_text_concat:
  assumes step: "\<And>p c. fst (f p c) = p @ snd (f p c)"
  shows "fst (iter_text f p ts) = p @ concat (snd (iter_text f p ts))"
proof (induction ts arbitrary: p)
  case Nil
  show ?case by simp
next
  case (Cons t ts)
  obtain p' d where fd: "f p t = (p', d)" by force
  with step [of p t] have p': "p' = p @ d" by simp
  from Cons [of p'] Cons [of p] fd p' show ?case
    by (simp add: split_beta)
qed

lemma delta_by_prefix_repeat: "delta_by_prefix p p = (p, [])"
  by (simp add: delta_by_prefix_def)

lemma replicate_delta_by_prefix_repeat: "replicate_delta_by_prefix p p = (p, [])"
  by (simp add: replicate_delta_by_prefix_def)

text \<open>
  Claim C2. For both implementations of the delta function and every pair
  \<open>(prev, curr)\<close>: the new accumulated content is \<open>prev\<close> followed by the returned
  delta; the delta is a suffix of (or equal to) \<open>curr\<close>; an identical repeat
  \<open>(prev, prev)\<close> returns \<open>(prev, "")\<close>; and for every sequence of contents fed
  through the function from the empty string, the concatenation of the deltas is the
  final accumulated content.
\<close>

theorem delta_by_prefix_accumulates:
  "fst (delta_by_prefix previous current) = previous @ snd (delta_by_prefix previous current) \<and>
   suffix (snd (delta_by_prefix previous current)) current \<and>
   delta_by_prefix previous previous = (previous, []) \<and>
   concat (snd (iter_text delta_by_prefix [] cs)) = fst (iter_text delta_by_prefix [] cs) \<and>
   fst (replicate_delta_by_prefix previous current) = previous @ snd (replicate_delta_by_prefix previous current) \<and>
   suffix (snd (replicate_delta_by_prefix previous current)) current \<and>
   replicate_delta_by_prefix previous previous = (previous, []) \<and>
   concat (snd (iter_text replicate_delta_by_prefix [] cs)) =
     fst (iter_text replicate_delta_by_prefix [] cs)"
proof -
  have a: "fst (iter_text delta_by_prefix [] cs) =
      [] @ concat (snd (iter_text delta_by_prefix [] cs))"
    by (rule iter_text_concat) (simp add: delta_by_prefix_parts)
  have b: "fst (iter_text replicate_delta_by_prefix [] cs) =
      [] @ concat (snd (iter_text replicate_delta_by_prefix [] cs))"
    by (rule iter_text_concat) (simp add: replicate_delta_by_prefix_parts)
  from a b show ?thesis
    by (simp add: delta_by_prefix_parts replicate_delta_by_prefix_parts
        delta_by_prefix_repeat replicate_delta_by_prefix_repeat)
qed

theorem delta_by_prefix_accumulates_witness:
  "delta_by_prefix ''Hello wor'' ''Hello world'' = (''Hello world'', ''ld'') \<and>
   fst (delta_by_prefix ''Hello wor'' ''Hello world'') =
     ''Hello wor'' @ snd (delta_by_prefix ''Hello wor'' ''Hello world'') \<and>
   suffix (snd (delta_by_prefix ''Hello wor'' ''Hello world'')) ''Hello world''"
proof -
  have e: "delta_by_prefix ''Hello wor'' ''Hello world'' = (''Hello world'', ''ld'')"
    by code_simp
  from delta_by_prefix_accumulates [of "''Hello wor''" "''Hello world''" "[]"] e
  show ?thesis by simp
qed

text \<open>
  Claim C5 fails for \<open>delta_by_prefix\<close> of \<open>src/core/delta_utils.py\<close>: that function has
  no small-fragment rule, and merges the overlap of a short fragment too. The input
  is the one of the repository's test \<open>test_partial_overlap_end\<close>.
\<close>

theorem small_fragment_additive_counterexample:
  "''Hello wor'' \<noteq> [] \<and> ''wor ld'' \<noteq> [] \<and> length ''wor ld'' < 32 \<and>
   \<not> prefix ''Hello wor'' ''wor ld'' \<and>
   delta_by_prefix ''Hello wor'' ''wor ld'' = (''Hello wor ld'', '' ld'') \<and>
   delta_by_prefix ''Hello wor'' ''wor ld'' \<noteq> (''Hello wor'' @ ''wor ld'', ''wor ld'')"
  by code_simp

text \<open>
  Claim C5, amended. For \<open>_delta_by_prefix\<close> of \<open>src/integrations/replicate.py\<close>: for
  every non-empty \<open>previous\<close> and every non-empty \<open>current\<close> shorter than 32 that does
  not start with \<open>previous\<close>, the function returns the delta \<open>current\<close> and the new
  accumulated content \<open>previous + current\<close>, without looking for an overlap.
\<close>

theorem replicate_small_fragment_additive:
  assumes "previous \<noteq> []" and "current \<noteq> []" and "length current < 32"
    and "\<not> prefix previous current"
  shows "replicate_delta_by_prefix previous current = (previous @ current, current)"
  using assms by (simp add: replicate_delta_by_prefix_def)

theorem replicate_small_fragment_additive_witness:
  "''Hello wor'' \<noteq> [] \<and> ''wor ld'' \<noteq> [] \<and> length ''wor ld'' < 32 \<and>
   \<not> prefix ''Hello wor'' ''wor ld'' \<and>
   replicate_delta_by_prefix ''Hello wor'' ''wor ld'' = (''Hello worwor ld'', ''wor ld'')"
proof -
  have h: "''Hello wor'' \<noteq> []" "''wor ld'' \<noteq> []" "length ''wor ld'' < 32"
    "\<not> prefix ''Hello wor'' ''wor ld''"
    by simp_all
  from replicate_small_fragment_additive [OF h] h show ?thesis by simp
qed

section \<open>AWS event-stream framing\<close>

text \<open>
  \<open>AwsEventStreamParser\<close> of \<open>src/integrations/replicate.py\<close>. Its state is the byte
  buffer \<open>_buf\<close>; a byte is an 8-bit word. \<open>struct.unpack(">I I I", ...)\<close> reads three
  big-endian unsigned 32-bit integers.
\<close>

type_synonym byte = "8 word"

definition be_uint :: "byte list \<Rightarrow> nat" where
  "be_uint bs = foldl (\<lambda>a b. 256 * a + unat b) 0 bs"

definition unpack_prelude :: "byte list \<Rightarrow> nat \<times> nat \<times> nat" where
  "unpack_prelude p =
     (be_uint (take 4 p), be_uint (take 4 (drop 4 p)), be_uint (take 4 (drop 8 p)))"

text \<open>
  The \<open>while True\<close> loop of \<open>feed\<close>, on the buffer and the list \<open>out\<close> of events found
  so far. \<open>_parse_event_headers\<close> is a pure, total function of the header bytes (every
  read it makes is guarded by a length check, and it decodes with \<open>errors="ignore"\<close>); the
  framing does not depend on what it returns, so it is a parameter of the model.
  Python slices clip at the end of the sequence, as \<open>take\<close> and \<open>drop\<close> do.
\<close>

function feed_loop ::
  "(byte list \<Rightarrow> 'h) \<Rightarrow> byte list \<Rightarrow> ('h \<times> byte list) list \<Rightarrow> byte list \<times> ('h \<times> byte list) list"
where
  "feed_loop parse_event_headers buf out =
     (if length buf < 12 then (buf, out)
      else
        (let (total_len, headers_len, prelude_crc) = unpack_prelude (take 12 buf)
         in if total_len < 16 \<or> headers_len > total_len then
              feed_loop parse_event_headers (tl buf) out
            else if length buf < total_len then (buf, out)
            else
              (let msg = take total_len buf;
                   buf' = drop total_len buf;
                   headers_raw = take headers_len (drop 12 msg);
                   payload = drop (12 + headers_len) (take (total_len - 4) msg);
                   headers = parse_event_headers headers_raw
               in feed_loop parse_event_headers buf' (out @ [(headers, payload)]))))"
  by pat_completeness auto
termination
  by (relation "measure (\<lambda>(ph, buf, out). length buf)") (auto simp: unpack_prelude_def)

declare feed_loop.simps [simp del]

text \<open>\<open>feed(data)\<close>: the new buffer and the events returned by the call.\<close>

definition feed ::
  "(byte list \<Rightarrow> 'h) \<Rightarrow> byte list \<Rightarrow> byte list \<Rightarrow> byte list \<times> ('h \<times> byte list) list"
where
  "feed parse_event_headers buf data =
     (if data = [] then (buf, []) else feed_loop parse_event_headers (buf @ data) [])"

text \<open>Feeding successive chunks to one parser: the final buffer and all events, in order.\<close>

fun feed_chunks ::
  "(byte list \<Rightarrow> 'h) \<Rightarrow> byte list \<Rightarrow> byte list list \<Rightarrow> byte list \<times> ('h \<times> byte list) list"
where
  "feed_chunks parse_event_headers buf [] = (buf, [])"
| "feed_chunks parse_event_headers buf (chunk # chunks) =
     (let (buf', events) = feed parse_event_headers buf chunk;
          (buf'', events') = feed_chunks parse_event_headers buf' chunks
      in (buf'', events @ events'))"


text \<open>A buffer on which the loop has nothing left to do: the state between two calls.\<close>

definition settled :: "(byte list \<Rightarrow> 'h) \<Rightarrow> byte list \<Rightarrow> bool" where
  "settled ph buf = (feed_loop ph buf [] = (buf, []))"

subsection \<open>Properties of the framing loop\<close>

lemma feed_loop_short: "length buf < 12 \<Longrightarrow> feed_loop ph buf out = (buf, out)"
  by (simp add: feed_loop.simps)

lemma feed_loop_malformed:
  assumes "12 \<le> length buf" and "unpack_prelude (take 12 buf) = (t, h, c)"
    and "t < 16 \<or> h > t"
  shows "feed_loop ph buf out = feed_loop ph (tl buf) out"
  using assms by (subst feed_loop.simps) auto

lemma feed_loop_incomplete:
  assumes "12 \<le> length buf" and "unpack_prelude (take 12 buf) = (t, h, c)"
    and "16 \<le> t" and "h \<le> t" and "length buf < t"
  shows "feed_loop ph buf out = (buf, out)"
  using assms by (subst feed_loop.simps) auto

lemma feed_loop_message:
  assumes "12 \<le> length buf" and "unpack_prelude (take 12 buf) = (t, h, c)"
    and "16 \<le> t" and "h \<le> t" and "t \<le> length buf"
  shows "feed_loop ph buf out =
    feed_loop ph (drop t buf)
      (out @ [(ph (take h (drop 12 (take t buf))), drop (12 + h) (take (t - 4) (take t buf)))])"
  using assms by (subst feed_loop.simps) (auto simp: Let_def)

lemma feed_loop_cases:
  obtains (short) "length buf < 12"
  | (malformed) t h c where "12 \<le> length buf" "unpack_prelude (take 12 buf) = (t, h, c)"
      "t < 16 \<or> h > t"
  | (incomplete) t h c where "12 \<le> length buf" "unpack_prelude (take 12 buf) = (t, h, c)"
      "16 \<le> t" "h \<le> t" "length buf < t"
  | (message) t h c where "12 \<le> length buf" "unpack_prelude (take 12 buf) = (t, h, c)"
      "16 \<le> t" "h \<le> t" "t \<le> length buf"
proof -
  obtain t h c where p: "unpack_prelude (take 12 buf) = (t, h, c)"
    by (cases "unpack_prelude (take 12 buf)") auto
  show thesis
  proof (cases "length buf < 12")
    case True
    then show thesis by (rule short)
  next
    case False
    then have long: "12 \<le> length buf" by simp
    show thesis
    proof (cases "t < 16 \<or> h > t")
      case True
      with long p show thesis by (rule malformed)
    next
      case False
      then have wf: "16 \<le> t" "h \<le> t" by simp_all
      show thesis
      proof (cases "length buf < t")
        case True
        with long p wf show thesis by (rule incomplete)
      next
        case False
        then have "t \<le> length buf" by simp
        with long p wf show thesis by (rule message)
      qed
    qed
  qed
qed

lemma feed_loop_out:
  "feed_loop ph buf (o1 @ out) = (fst (feed_loop ph buf out), o1 @ snd (feed_loop ph buf out))"
proof (induction "length buf" arbitrary: buf out rule: less_induct)
  case less
  show ?case
  proof (cases buf rule: feed_loop_cases)
    case short
    then show ?thesis by (simp add: feed_loop_short)
  next
    case (malformed t h c)
    then have "length (tl buf) < length buf" by (cases buf) auto
    from less [OF this, of out] malformed show ?thesis
      by (simp add: feed_loop_malformed [OF malformed])
  next
    case (incomplete t h c)
    then show ?thesis by (simp add: feed_loop_incomplete [OF incomplete])
  next
    case (message t h c)
    then have l: "length (drop t buf) < length buf" by simp
    let ?ev = "(ph (take h (drop 12 (take t buf))), drop (12 + h) (take (t - 4) (take t buf)))"
    have "feed_loop ph buf (o1 @ out) = feed_loop ph (drop t buf) (o1 @ (out @ [?ev]))"
      by (simp add: feed_loop_message [OF message])
    also have "\<dots> = (fst (feed_loop ph (drop t buf) (out @ [?ev])),
        o1 @ snd (feed_loop ph (drop t buf) (out @ [?ev])))"
      by (rule less [OF l])
    also have "feed_loop ph (drop t buf) (out @ [?ev]) = feed_loop ph buf out"
      by (simp add: feed_loop_message [OF message])
    finally show ?thesis .
  qed
qed

lemma prelude_append:
  "12 \<le> length buf \<Longrightarrow> unpack_prelude (take 12 (buf @ d)) = unpack_prelude (take 12 buf)"
  by simp

lemma feed_loop_append:
  "feed_loop ph (buf @ d) out =
   feed_loop ph (fst (feed_loop ph buf out) @ d) (snd (feed_loop ph buf out))"
proof (induction "length buf" arbitrary: buf out rule: less_induct)
  case less
  show ?case
  proof (cases buf rule: feed_loop_cases)
    case short
    then show ?thesis by (simp add: feed_loop_short)
  next
    case (malformed t h c)
    then have l: "length (tl buf) < length buf" and ne: "buf \<noteq> []" by (cases buf; auto)+
    from malformed have m: "12 \<le> length (buf @ d)" "unpack_prelude (take 12 (buf @ d)) = (t, h, c)"
      by simp_all
    from less [OF l, of out] ne show ?thesis
      by (simp add: feed_loop_malformed [OF malformed] feed_loop_malformed [OF m malformed(3)])
  next
    case (incomplete t h c)
    then show ?thesis by (simp add: feed_loop_incomplete [OF incomplete])
  next
    case (message t h c)
    then have l: "length (drop t buf) < length buf" by simp
    from message have m: "12 \<le> length (buf @ d)" "unpack_prelude (take 12 (buf @ d)) = (t, h, c)"
      "t \<le> length (buf @ d)"
      by simp_all
    from less [OF l] message show ?thesis
      by (simp add: feed_loop_message [OF message] feed_loop_message [OF m(1,2) message(3,4) m(3)])
  qed
qed

lemma feed_loop_stable:
  "feed_loop ph (fst (feed_loop ph buf out)) out' = (fst (feed_loop ph buf out), out')"
proof -
  have "feed_loop ph (fst (feed_loop ph buf out)) (snd (feed_loop ph buf out)) = feed_loop ph buf out"
    using feed_loop_append [of ph buf "[]" out] by simp
  then have "fst (feed_loop ph (fst (feed_loop ph buf out)) ([] @ snd (feed_loop ph buf out))) = fst (feed_loop ph buf out) \<and>
     snd (feed_loop ph (fst (feed_loop ph buf out)) ([] @ snd (feed_loop ph buf out))) = snd (feed_loop ph buf out)" by simp
  then have "feed_loop ph (fst (feed_loop ph buf out)) [] = (fst (feed_loop ph buf out), [])"
    using feed_loop_out [of ph "fst (feed_loop ph buf out)" "snd (feed_loop ph buf out)" "[]"]
    by (simp add: prod_eq_iff)
  then show ?thesis
    using feed_loop_out [of ph "fst (feed_loop ph buf out)" out' "[]"] by simp
qed

lemma feed_settled: "settled ph buf \<Longrightarrow> feed ph buf data = feed_loop ph (buf @ data) []"
  by (simp add: feed_def settled_def)

lemma settled_feed_loop: "settled ph (fst (feed_loop ph buf out))"
  by (simp add: settled_def feed_loop_stable)

lemma feed_chunks_concat:
  "settled ph buf \<Longrightarrow> feed_chunks ph buf chunks = feed_loop ph (buf @ concat chunks) []"
proof (induction chunks arbitrary: buf)
  case Nil
  then show ?case by (simp add: settled_def)
next
  case (Cons chunk chunks)
  let ?r = "feed_loop ph (buf @ chunk) []"
  have s: "settled ph (fst ?r)" by (rule settled_feed_loop)
  have "feed_loop ph (buf @ chunk @ concat chunks) [] = feed_loop ph (fst ?r @ concat chunks) (snd ?r)"
    using feed_loop_append [of ph "buf @ chunk" "concat chunks" "[]"] by simp
  also have "\<dots> = (fst (feed_loop ph (fst ?r @ concat chunks) []), snd ?r @ snd (feed_loop ph (fst ?r @ concat chunks) []))"
    using feed_loop_out [of ph "fst ?r @ concat chunks" "snd ?r" "[]"] by simp
  finally show ?case
    using Cons.IH [OF s] Cons.prems by (simp add: feed_settled split_beta)
qed

lemma settled_empty: "settled ph []"
  by (simp add: settled_def feed_loop_short)

text \<open>
  Claim C7. Feeding a byte string to a fresh parser in successive chunks gives the
  same events, in the same order, and leaves the same residue in the buffer as
  feeding it in one piece, whatever the split; hence two splits of the same byte
  string give the same result. And when at least 12 bytes are buffered and the
  prelude at the head is malformed (\<open>total_len < 16\<close> or \<open>headers_len > total_len\<close>), the
  loop drops exactly the first byte and goes on with the rest.
\<close>

theorem feed_chunking_invariant:
  "feed_chunks ph [] chunks = feed ph [] (concat chunks) \<and>
   (concat chunks = concat chunks' \<longrightarrow> feed_chunks ph [] chunks = feed_chunks ph [] chunks') \<and>
   (12 \<le> length buf \<and> unpack_prelude (take 12 buf) = (total_len, headers_len, prelude_crc) \<and>
    (total_len < 16 \<or> headers_len > total_len) \<longrightarrow>
      feed_loop ph buf out = feed_loop ph (tl buf) out \<and>
      tl buf = drop 1 buf \<and> Suc (length (tl buf)) = length buf)"
proof -
  have one: "feed_chunks ph [] cs = feed ph [] (concat cs)" for cs
    by (simp add: feed_chunks_concat settled_empty feed_settled)
  have two: "concat chunks = concat chunks' \<longrightarrow> feed_chunks ph [] chunks = feed_chunks ph [] chunks'"
    by (simp add: one)
  have three: "feed_loop ph buf out = feed_loop ph (tl buf) out \<and>
      tl buf = drop 1 buf \<and> Suc (length (tl buf)) = length buf"
    if "12 \<le> length buf" "unpack_prelude (take 12 buf) = (total_len, headers_len, prelude_crc)"
      "total_len < 16 \<or> headers_len > total_len"
    using that feed_loop_malformed [OF that] by (cases buf) (simp_all add: drop_Suc)
  from one two three show ?thesis by blast
qed

lemma prelude_example:
  "unpack_prelude (take 12 [0,0,0,17, 0,0,0,1, 9,9,9,9, 7, 42, 1,1,1,1, 5]) = (17, 1, 151587081)"
  by (simp add: unpack_prelude_def be_uint_def)

lemma malformed_prelude_example:
  "unpack_prelude (take 12 [0,0,0,1, 0,0,0,17, 0,0,0,1, 3]) = (1, 17, 1)"
  by (simp add: unpack_prelude_def be_uint_def)

lemma feed_example:
  "feed (\<lambda>r. r) [] [0,0,0,17, 0,0,0,1, 9,9,9,9, 7, 42, 1,1,1,1, 5] = ([1, 5], [([7], [])])"
  by (simp add: feed_def feed_loop_message [OF _ prelude_example] feed_loop_short)

theorem feed_chunking_invariant_witness:
  "feed_chunks (\<lambda>r. r) [] [[0,0,0,17, 0,0], [0,1, 9,9,9,9, 7, 42, 1,1], [], [1,1, 5]] =
     ([1, 5], [([7], [])]) \<and>
   feed_chunks (\<lambda>r. r) [] [[0,0,0,17, 0,0,0,1, 9,9,9,9, 7, 42, 1,1,1,1], [5]] =
     feed_chunks (\<lambda>r. r) [] [[0,0,0,17, 0,0], [0,1, 9,9,9,9, 7, 42, 1,1], [], [1,1, 5]] \<and>
   12 \<le> length [0,0,0,1, 0,0,0,17, 0,0,0,1, 3 :: byte] \<and>
   unpack_prelude (take 12 [0,0,0,1, 0,0,0,17, 0,0,0,1, 3]) = (1, 17, 1) \<and>
   feed_loop (\<lambda>r. r) [0,0,0,1, 0,0,0,17, 0,0,0,1, 3] [] =
     feed_loop (\<lambda>r. r) [0,0,1, 0,0,0,17, 0,0,0,1, 3] []"
proof -
  let ?cs = "[[0,0,0,17, 0,0], [0,1, 9,9,9,9, 7, 42, 1,1], [], [1,1, 5 :: byte]]"
  let ?cs' = "[[0,0,0,17, 0,0,0,1, 9,9,9,9, 7, 42, 1,1,1,1], [5 :: byte]]"
  let ?bad = "[0,0,0,1, 0,0,0,17, 0,0,0,1, 3 :: byte]"
  note t = feed_chunking_invariant [of "\<lambda>r. r" ?cs' ?cs ?bad 1 17 1 "[]"]
  note t' = feed_chunking_invariant [of "\<lambda>r. r" ?cs ?cs' ?bad 1 17 1 "[]"]
  have cc: "concat ?cs = [0,0,0,17, 0,0,0,1, 9,9,9,9, 7, 42, 1,1,1,1, 5]" by simp
  have c: "concat ?cs' = concat ?cs" by simp
  have l: "12 \<le> length ?bad" by simp
  have m: "(1::nat) < 16 \<or> (17::nat) > 1" by simp
  have tlb: "tl ?bad = [0,0,1, 0,0,0,17, 0,0,0,1, 3]" by simp
  have a: "feed_chunks (\<lambda>r. r) [] ?cs = ([1, 5], [([7], [])])"
    using t' [THEN conjunct1] unfolding cc by (rule trans) (rule feed_example)
  have b: "feed_chunks (\<lambda>r. r) [] ?cs' = feed_chunks (\<lambda>r. r) [] ?cs"
    by (rule t [THEN conjunct2, THEN conjunct1, rule_format]) (rule c)
  have d: "feed_loop (\<lambda>r. r) ?bad [] = feed_loop (\<lambda>r. r) [0,0,1, 0,0,0,17, 0,0,0,1, 3] []"
    using t [THEN conjunct2, THEN conjunct2, rule_format,
        OF conjI [OF l conjI [OF malformed_prelude_example m]], THEN conjunct1]
    unfolding tlb .
  from a b l malformed_prelude_example d show ?thesis by (intro conjI)
qed

section \<open>Token budget estimate\<close>

text \<open>
  A Python \<open>str\<close> is a sequence of Unicode code points; \<open>len\<close> counts code points.
\<close>

type_synonym py_str = "nat list"

definition ascii :: "string \<Rightarrow> py_str" where
  "ascii s = map of_char s"

text \<open>The length of the UTF-8 encoding of a string: its byte length.\<close>

definition utf8_width :: "nat \<Rightarrow> nat" where
  "utf8_width cp = (if cp < 128 then 1 else if cp < 2048 then 2 else if cp < 65536 then 3 else 4)"

definition byte_length :: "py_str \<Rightarrow> nat" where
  "byte_length text = sum_list (map utf8_width text)"

text \<open>
  \<open>count_tokens\<close> of \<open>src/core/tokenizer.py\<close>. \<open>ENCODING\<close> is the tiktoken encoding, or
  \<open>None\<close> when it could not be loaded; \<open>scale\<close> stands for the floating-point
  \<open>\<lambda>n. int(n * TOKEN_COUNT_MULTIPLIER)\<close>. The second component of the result lists the
  texts handed to the tokenizer (\<open>ENCODING.encode\<close>) during the call.
\<close>

definition count_tokens ::
  "(py_str \<Rightarrow> nat list) option \<Rightarrow> (int \<Rightarrow> int) \<Rightarrow> py_str \<Rightarrow> bool \<Rightarrow> int \<times> py_str list"
where
  "count_tokens ENCODING scale text apply_multiplier =
     (case ENCODING of
        None \<Rightarrow> (0, [])
      | Some encode \<Rightarrow>
          if text = [] then (0, [])
          else
            (let token_count = int (length (encode text))
             in (if apply_multiplier then scale token_count else token_count, [text])))"

text \<open>\<open>_budget_tokens_estimate\<close> of \<open>src/core/context_compressor.py\<close>.\<close>

definition budget_tokens_estimate ::
  "(py_str \<Rightarrow> nat list) option \<Rightarrow> (int \<Rightarrow> int) \<Rightarrow> py_str \<Rightarrow> int \<times> py_str list"
where
  "budget_tokens_estimate ENCODING scale text =
     (if text = [] then (0, [])
      else if length text \<ge> 20000 then (int (length text), [])
      else count_tokens ENCODING scale text False)"

subsection \<open>Properties of the budget estimate\<close>

lemma byte_length_replicate: "byte_length (replicate n c) = n * utf8_width c"
  by (induction n) (simp_all add: byte_length_def)

lemma byte_length_ascii: "\<forall>c \<in> set s. c < 128 \<Longrightarrow> byte_length s = length s"
  by (induction s) (simp_all add: byte_length_def utf8_width_def)

text \<open>
  Claim C9 fails as stated: for a text of 20000 characters, the estimate is the number
  of characters, which is not the byte length as soon as a character is outside
  ASCII (here 20000 times U+00E9, 40000 bytes in UTF-8).
\<close>

theorem budget_estimate_byte_length_counterexample:
  "20000 \<le> length (replicate 20000 (233::nat)) \<and>
   fst (budget_tokens_estimate None (\<lambda>n. n) (replicate 20000 233)) = 20000 \<and>
   byte_length (replicate 20000 233) = 40000"
  by (simp add: budget_tokens_estimate_def byte_length_replicate utf8_width_def)

text \<open>
  Claim C9, amended. For every text of at least 20000 characters the estimate is the
  number of characters of the text (\<open>len(text)\<close>; the byte length when the text is
  ASCII), and the tokenizer is not invoked. For every shorter text the estimate is
  what \<open>count_tokens\<close> returns: for a non-empty text and a loaded encoding, the number
  of tokens of the text, from one invocation of the tokenizer.
\<close>

theorem budget_estimate_short_circuit:
  "(20000 \<le> length s \<longrightarrow> budget_tokens_estimate E sc s = (int (length s), [])) \<and>
   (20000 \<le> length s \<and> (\<forall>c \<in> set s. c < 128) \<longrightarrow>
      budget_tokens_estimate E sc s = (int (byte_length s), [])) \<and>
   (length s < 20000 \<longrightarrow> budget_tokens_estimate E sc s = count_tokens E sc s False) \<and>
   (length s < 20000 \<and> s \<noteq> [] \<longrightarrow>
      budget_tokens_estimate (Some enc) sc s = (int (length (enc s)), [s]))"
  by (auto simp: budget_tokens_estimate_def count_tokens_def byte_length_ascii
      split: option.splits)

theorem budget_estimate_short_circuit_witness:
  "20000 \<le> length (replicate 20000 (65::nat)) \<and>
   budget_tokens_estimate None (\<lambda>n. n) (replicate 20000 65) = (20000, []) \<and>
   length [104, 105 :: nat] < 20000 \<and>
   budget_tokens_estimate (Some (\<lambda>t. t)) (\<lambda>n. n) [104, 105] = (2, [[104, 105]])"
proof -
  have l: "20000 \<le> length (replicate 20000 (65::nat))" by simp
  have k: "length [104, 105 :: nat] < 20000 \<and> [104, 105 :: nat] \<noteq> []" by simp
  from budget_estimate_short_circuit [of "replicate 20000 65" None "\<lambda>n. n"] l
  have a: "budget_tokens_estimate None (\<lambda>n. n) (replicate 20000 65) = (20000, [])"
    by simp
  have b: "budget_tokens_estimate (Some (\<lambda>t. t)) (\<lambda>n. n) [104, 105] = (2, [[104, 105]])"
    using budget_estimate_short_circuit [of "[104, 105]" "Some (\<lambda>t. t)" "\<lambda>n. n" "\<lambda>t. t",
        THEN conjunct2, THEN conjunct2, THEN conjunct2, rule_format, OF k]
    by simp
  from l a k b show ?thesis by simp
qed

section \<open>Request fingerprint\<close>

text \<open>
  The values a request body is made of (\<open>req.model_dump(exclude_none=True)\<close>, or the
  parsed JSON of the request). A dictionary is an association list in insertion order.
  Floats are left out: no claim depends on how they print.
\<close>

datatype json =
    JNull
  | JBool bool
  | JInt int
  | JStr py_str
  | JList "json list"
  | JDict "(py_str \<times> json) list"

text \<open>
  \<open>json.dumps(obj, ensure_ascii=False, sort_keys=True, default=str)\<close>. With
  \<open>ensure_ascii=False\<close> only the quote, the backslash and the control characters below
  0x20 are escaped; the separators are \<open>", "\<close> and \<open>": "\<close>; the items of a dictionary
  are written in the order of their keys, compared code point by code point.
\<close>

definition hex_digit :: "nat \<Rightarrow> nat" where
  "hex_digit d = (if d < 10 then 48 + d else 87 + d)"

definition escape_char :: "nat \<Rightarrow> py_str" where
  "escape_char c =
     (if c = 34 then [92, 34]
      else if c = 92 then [92, 92]
      else if c = 10 then [92, 110]
      else if c = 13 then [92, 114]
      else if c = 9 then [92, 116]
      else if c = 8 then [92, 98]
      else if c = 12 then [92, 102]
      else if c < 32 then [92, 117, 48, 48, hex_digit (c div 16), hex_digit (c mod 16)]
      else [c])"

definition encode_str :: "py_str \<Rightarrow> py_str" where
  "encode_str s = [34] @ concat (map escape_char s) @ [34]"

function digits :: "nat \<Rightarrow> py_str" where
  "digits n = (if n < 10 then [48 + n] else digits (n div 10) @ [48 + n mod 10])"
  by pat_completeness auto
termination by (relation "measure id") auto

declare digits.simps [simp del]

definition encode_int :: "int \<Rightarrow> py_str" where
  "encode_int i = (if i < 0 then [45] @ digits (nat (- i)) else digits (nat i))"

fun str_le :: "py_str \<Rightarrow> py_str \<Rightarrow> bool" where
  "str_le [] ys = True"
| "str_le (x # xs) [] = False"
| "str_le (x # xs) (y # ys) = (x < y \<or> (x = y \<and> str_le xs ys))"

fun insert_item :: "py_str \<times> 'a \<Rightarrow> (py_str \<times> 'a) list \<Rightarrow> (py_str \<times> 'a) list" where
  "insert_item kv [] = [kv]"
| "insert_item kv (kv' # rest) =
     (if str_le (fst kv') (fst kv) then kv' # insert_item kv rest else kv # kv' # rest)"

definition sort_items :: "(py_str \<times> 'a) list \<Rightarrow> (py_str \<times> 'a) list" where
  "sort_items items = foldl (\<lambda>acc kv. insert_item kv acc) [] items"

fun join :: "py_str \<Rightarrow> py_str list \<Rightarrow> py_str" where
  "join sep [] = []"
| "join sep [x] = x"
| "join sep (x # y # ys) = x @ sep @ join sep (y # ys)"

fun json_dumps :: "json \<Rightarrow> py_str" where
  "json_dumps JNull = ascii ''null''"
| "json_dumps (JBool b) = (if b then ascii ''true'' else ascii ''false'')"
| "json_dumps (JInt i) = encode_int i"
| "json_dumps (JStr s) = encode_str s"
| "json_dumps (JList xs) = ascii ''['' @ join (ascii '', '') (map json_dumps xs) @ ascii '']''"
| "json_dumps (JDict items) =
     ascii ''{'' @
     join (ascii '', '')
       (map (\<lambda>(k, v). encode_str k @ ascii '': '' @ v)
          (sort_items (map (\<lambda>(k, v). (k, json_dumps v)) items))) @
     ascii ''}''"

text \<open>
  \<open>_short_json(obj, limit=4096)\<close>. For the values of \<open>json\<close>, \<open>json.dumps\<close> raises
  neither \<open>TypeError\<close> nor \<open>ValueError\<close>, so the \<open>except\<close> branch is not taken.
\<close>

definition short_json :: "json \<Rightarrow> nat \<Rightarrow> py_str" where
  "short_json obj limit =
     (let s = json_dumps obj in if length s \<le> limit then s else take limit s)"

text \<open>
  \<open>fingerprint\<close> and \<open>fingerprint_drop\<close>. The parameter \<open>sha256_hexdigest\<close> stands for the
  library function \<open>\<lambda>s. hashlib.sha256(s.encode("utf-8")).hexdigest()\<close>.
\<close>

definition fingerprint :: "(py_str \<Rightarrow> 'd) \<Rightarrow> json \<Rightarrow> 'd" where
  "fingerprint sha256_hexdigest obj = sha256_hexdigest (short_json obj 4096)"

definition fingerprint_drop :: "(py_str \<Rightarrow> 'd) \<Rightarrow> json \<Rightarrow> py_str list \<Rightarrow> 'd" where
  "fingerprint_drop sha256_hexdigest obj drop_keys =
     (case obj of
        JDict items \<Rightarrow> fingerprint sha256_hexdigest (JDict (filter (\<lambda>(k, v). k \<notin> set drop_keys) items))
      | _ \<Rightarrow> fingerprint sha256_hexdigest obj)"


text \<open>A body whose serialisation is longer than the limit; \<open>c\<close> is its last character.\<close>

definition long_prompt_body :: "nat \<Rightarrow> json" where
  "long_prompt_body c = JDict [(ascii ''prompt'', JStr (replicate 4096 97 @ [c]))]"

subsection \<open>Properties of the fingerprint\<close>

lemma escape_plain: "concat (replicate n (escape_char 97)) = replicate n 97"
proof -
  have e: "escape_char 97 = [97]" by (simp add: escape_char_def)
  show ?thesis by (induction n) (simp_all add: e)
qed

lemma encode_str_long:
  "encode_str (replicate n 97 @ [c]) = [34] @ replicate n 97 @ escape_char c @ [34]"
  by (simp add: encode_str_def escape_plain)

lemma json_dumps_long_prompt_body:
  "json_dumps (long_prompt_body c) =
     ascii ''{'' @ encode_str (ascii ''prompt'') @ ascii '': '' @
     [34] @ replicate 4096 97 @ escape_char c @ [34] @ ascii ''}''"
  by (simp add: long_prompt_body_def sort_items_def encode_str_long)

lemma short_json_long_prompt_body:
  "short_json (long_prompt_body c) 4096 =
     ascii ''{'' @ encode_str (ascii ''prompt'') @ ascii '': '' @ [34] @ replicate 4084 97"
  by (simp add: short_json_def json_dumps_long_prompt_body Let_def ascii_def encode_str_def escape_char_def)

text \<open>
  Claim C8 fails as stated: only the first 4096 characters of the serialisation are
  hashed. Two bodies that differ in the last character of a long prompt have different
  canonical serialisations and the same fingerprint, whatever the hash function.
\<close>

theorem fingerprint_whole_body_counterexample:
  "json_dumps (long_prompt_body 120) \<noteq> json_dumps (long_prompt_body 121) \<and>
   short_json (long_prompt_body 120) 4096 = short_json (long_prompt_body 121) 4096 \<and>
   fingerprint (\<lambda>s. s) (long_prompt_body 120) = fingerprint (\<lambda>s. s) (long_prompt_body 121) \<and>
   (\<forall>H :: py_str \<Rightarrow> string.
      fingerprint H (long_prompt_body 120) = fingerprint H (long_prompt_body 121))"
  by (simp add: fingerprint_def short_json_long_prompt_body json_dumps_long_prompt_body
      escape_char_def)

text \<open>
  Claim C8, amended. The fingerprint of a body is the SHA-256 hex digest of the first
  4096 characters of its canonical JSON serialisation (of the whole serialisation when
  it has at most 4096 characters). Two bodies whose serialisations agree on the first
  4096 characters have equal fingerprints, and when the digest is free of collisions
  the converse holds as well.
\<close>

theorem fingerprint_of_truncated_json:
  "fingerprint H obj = H (take 4096 (json_dumps obj)) \<and>
   (length (json_dumps obj) \<le> 4096 \<longrightarrow> fingerprint H obj = H (json_dumps obj)) \<and>
   (take 4096 (json_dumps b1) = take 4096 (json_dumps b2) \<longrightarrow>
      fingerprint H b1 = fingerprint H b2) \<and>
   (inj H \<longrightarrow>
      (fingerprint H b1 = fingerprint H b2) =
      (take 4096 (json_dumps b1) = take 4096 (json_dumps b2)))"
  by (auto simp: fingerprint_def short_json_def Let_def dest: injD)

lemma small_body_length:
  "length (json_dumps (JDict [(ascii ''model'', JStr (ascii ''m''))])) \<le> 4096"
  by code_simp

theorem fingerprint_of_truncated_json_witness:
  "length (json_dumps (JDict [(ascii ''model'', JStr (ascii ''m''))])) \<le> 4096 \<and>
   inj (\<lambda>s :: py_str. s) \<and>
   fingerprint (\<lambda>s. s) (JDict [(ascii ''model'', JStr (ascii ''m''))]) =
     json_dumps (JDict [(ascii ''model'', JStr (ascii ''m''))]) \<and>
   fingerprint (\<lambda>s. s) (long_prompt_body 120) = fingerprint (\<lambda>s. s) (long_prompt_body 121)"
proof -
  let ?b = "JDict [(ascii ''model'', JStr (ascii ''m''))]"
  note t = fingerprint_of_truncated_json [of "\<lambda>s. s" ?b "long_prompt_body 120" "long_prompt_body 121"]
  have i: "inj (\<lambda>s :: py_str. s)" by simp
  have e: "take 4096 (json_dumps (long_prompt_body 120)) = take 4096 (json_dumps (long_prompt_body 121))"
    using short_json_long_prompt_body [of 120] short_json_long_prompt_body [of 121]
    by (simp add: short_json_def Let_def json_dumps_long_prompt_body escape_char_def)
  from t small_body_length have a: "fingerprint (\<lambda>s. s) ?b = json_dumps ?b" by blast
  from t e have b: "fingerprint (\<lambda>s. s) (long_prompt_body 120) = fingerprint (\<lambda>s. s) (long_prompt_body 121)"
    by blast
  from small_body_length i a b show ?thesis by (intro conjI)
qed

section \<open>Image pruning in the Claude converter\<close>

text \<open>
  The user messages of \<open>src/integrations/claude/converter.py\<close> are dictionaries; a
  missing key is \<open>None\<close>. The context of a user message and the assistant messages are
  left abstract: the pruning does not look at them.
\<close>

record image =
  format :: string
  source_bytes :: string

record 'c user_input_message =
  content :: string
  userInputMessageContext :: 'c
  origin :: string
  modelId :: "string option"
  images :: "image list option"

datatype ('c, 'a) history_item =
    UserInputMessage "'c user_input_message"
  | AssistantResponseMessage 'a

text \<open>\<open>user.get("images")\<close> is truthy: the key is present and the list is not empty.\<close>

definition has_images :: "'c user_input_message \<Rightarrow> bool" where
  "has_images user = (case images user of None \<Rightarrow> False | Some imgs \<Rightarrow> imgs \<noteq> [])"

text \<open>\<open>user.pop("images", None)\<close>.\<close>

definition pop_images :: "'c user_input_message \<Rightarrow> 'c user_input_message" where
  "pop_images user = user\<lparr>images := None\<rparr>"

definition item_has_images :: "('c, 'a) history_item \<Rightarrow> bool" where
  "item_has_images item =
     (case item of UserInputMessage user \<Rightarrow> has_images user | AssistantResponseMessage a \<Rightarrow> False)"

definition item_pop_images :: "('c, 'a) history_item \<Rightarrow> ('c, 'a) history_item" where
  "item_pop_images item =
     (case item of
        UserInputMessage user \<Rightarrow> UserInputMessage (pop_images user)
      | AssistantResponseMessage a \<Rightarrow> AssistantResponseMessage a)"

text \<open>
  \<open>_prune_images_to_last_two_user_messages\<close> collects references to the user messages
  that carry images, those of the history in order and then the current one, and pops
  the images of all but the last two. The dictionaries of the history and the current
  message are distinct objects, so a reference is modelled by a position: \<open>i\<close> below
  \<open>len(history)\<close> for \<open>history[i]\<close>, and \<open>len(history)\<close> for the current message. The
  in-place update is returned as the new history and the new current message.
\<close>

definition image_targets :: "('c, 'a) history_item list \<Rightarrow> 'c user_input_message \<Rightarrow> nat list" where
  "image_targets history current_user =
     filter (\<lambda>i. item_has_images (history ! i)) [0..<length history] @
     (if has_images current_user then [length history] else [])"

definition prune_images_to_last_two_user_messages ::
  "('c, 'a) history_item list \<Rightarrow> 'c user_input_message \<Rightarrow>
   ('c, 'a) history_item list \<times> 'c user_input_message"
where
  "prune_images_to_last_two_user_messages history current_user =
     (let targets = image_targets history current_user;
          pruned = take (length targets - 2) targets
      in (map (\<lambda>i. if i \<in> set pruned then item_pop_images (history ! i) else history ! i)
            [0..<length history],
          if length history \<in> set pruned then pop_images current_user else current_user))"

text \<open>The user messages of the outbound body: those of the history, then the current one.\<close>

fun users_of :: "('c, 'a) history_item list \<Rightarrow> 'c user_input_message list" where
  "users_of [] = []"
| "users_of (UserInputMessage user # items) = user # users_of items"
| "users_of (AssistantResponseMessage a # items) = users_of items"

definition user_messages :: "('c, 'a) history_item list \<Rightarrow> 'c user_input_message \<Rightarrow> 'c user_input_message list" where
  "user_messages history current_user = users_of history @ [current_user]"

text \<open>
  A right-to-left reading of the pruning, used in the proofs: an element is cleared
  when it satisfies \<open>P\<close> and at least two later elements do.
\<close>

fun keep_last_two :: "('x \<Rightarrow> bool) \<Rightarrow> ('x \<Rightarrow> 'x) \<Rightarrow> 'x list \<Rightarrow> 'x list" where
  "keep_last_two P g [] = []"
| "keep_last_two P g (x # xs) =
     (if P x \<and> 2 \<le> length (filter P xs) then g x else x) # keep_last_two P g xs"

definition all_items :: "('c, 'a) history_item list \<Rightarrow> 'c user_input_message \<Rightarrow> ('c, 'a) history_item list" where
  "all_items history current_user = history @ [UserInputMessage current_user]"

text \<open>A conversation with three messages that carry images.\<close>

definition example_user :: "string \<Rightarrow> image list option \<Rightarrow> unit user_input_message" where
  "example_user c imgs =
     \<lparr>content = c, userInputMessageContext = (), origin = ''KIRO_CLI'', modelId = None,
      images = imgs\<rparr>"

definition example_history :: "(unit, string) history_item list" where
  "example_history =
     [UserInputMessage (example_user ''one'' (Some [\<lparr>format = ''png'', source_bytes = ''AAAA''\<rparr>])),
      AssistantResponseMessage ''first answer'',
      UserInputMessage (example_user ''two'' (Some [\<lparr>format = ''png'', source_bytes = ''BBBB''\<rparr>])),
      AssistantResponseMessage ''second answer'',
      UserInputMessage (example_user ''three'' None)]"

definition example_current :: "unit user_input_message" where
  "example_current = example_user ''four'' (Some [\<lparr>format = ''jpeg'', source_bytes = ''CCCC''\<rparr>])"

definition example_pruned_history :: "(unit, string) history_item list" where
  "example_pruned_history =
     [UserInputMessage (example_user ''one'' None),
      AssistantResponseMessage ''first answer'',
      UserInputMessage (example_user ''two'' (Some [\<lparr>format = ''png'', source_bytes = ''BBBB''\<rparr>])),
      AssistantResponseMessage ''second answer'',
      UserInputMessage (example_user ''three'' None)]"

subsection \<open>Properties of the pruning\<close>

lemma take_filter_upt:
  "i \<in> set (take m (filter Q [0..<n])) \<longleftrightarrow> i < n \<and> Q i \<and> length (filter Q [0..<i]) < m"
proof (induction n)
  case 0
  show ?case by simp
next
  case (Suc n)
  show ?case
  proof (cases "i < n")
    case True
    have "i \<notin> set (take (m - length (filter Q [0..<n])) (if Q n then [n] else []))"
      using True by (auto dest: in_set_takeD)
    with Suc True show ?thesis by auto
  next
    case False
    show ?thesis
    proof (cases "i = n")
      case True
      then show ?thesis
        by (auto dest!: in_set_takeD simp: take_Cons' split: if_splits)
    next
      case False
      with \<open>\<not> i < n\<close> show ?thesis by (auto dest!: in_set_takeD)
    qed
  qed
qed


lemma length_filter_upt_take:
  "i \<le> length xs \<Longrightarrow> length (filter (\<lambda>j. P (xs ! j)) [0..<i]) = length (filter P (take i xs))"
  by (induction i) (simp_all add: take_Suc_conv_app_nth)

lemma keep_last_two_filter:
  assumes "\<And>x. \<not> P (g x)"
  shows "filter P (keep_last_two P g xs) = drop (length (filter P xs) - 2) (filter P xs)"
proof (induction xs)
  case Nil
  show ?case by simp
next
  case (Cons x xs)
  show ?case
  proof (cases "P x \<and> 2 \<le> length (filter P xs)")
    case True
    then have "Suc (length (filter P xs)) - 2 = Suc (length (filter P xs) - 2)" by arith
    with True Cons assms show ?thesis by simp
  next
    case False
    show ?thesis
    proof (cases "P x")
      case True
      with False have "length (filter P xs) - 2 = 0" "Suc (length (filter P xs)) - 2 = 0" by arith+
      with True False Cons show ?thesis by simp
    next
      case False
      with Cons show ?thesis by simp
    qed
  qed
qed

lemma length_keep_last_two [simp]: "length (keep_last_two P g xs) = length xs"
  by (induction xs) simp_all

lemma keep_last_two_nth:
  "i < length xs \<Longrightarrow>
   keep_last_two P g xs ! i =
     (if P (xs ! i) \<and> 2 \<le> length (filter P (drop (Suc i) xs)) then g (xs ! i) else xs ! i)"
proof (induction xs arbitrary: i)
  case Nil
  then show ?case by simp
next
  case (Cons x xs)
  then show ?case by (cases i) simp_all
qed

lemma count_split:
  assumes "i < length xs" and "P (xs ! i)"
  shows "length (filter P xs) =
    length (filter P (take i xs)) + 1 + length (filter P (drop (Suc i) xs))"
proof -
  have "xs = take i xs @ xs ! i # drop (Suc i) xs"
    using assms(1) by (simp add: id_take_nth_drop)
  then have "filter P xs = filter P (take i xs @ xs ! i # drop (Suc i) xs)" by simp
  with assms(2) show ?thesis by simp
qed

lemma image_targets_items:
  "image_targets h c = filter (\<lambda>i. item_has_images (all_items h c ! i)) [0..<length (all_items h c)]"
  by (auto simp: image_targets_def all_items_def item_has_images_def nth_append intro!: filter_cong)

lemma member_pruned:
  assumes "i < length (all_items h c)"
  shows "i \<in> set (take (length (image_targets h c) - 2) (image_targets h c)) \<longleftrightarrow>
    item_has_images (all_items h c ! i) \<and>
    2 \<le> length (filter item_has_images (drop (Suc i) (all_items h c)))"
proof -
  let ?xs = "all_items h c"
  let ?Q = "\<lambda>i. item_has_images (?xs ! i)"
  have k: "length (image_targets h c) = length (filter item_has_images ?xs)"
    using length_filter_upt_take [of "length ?xs" ?xs item_has_images]
    by (simp add: image_targets_items)
  have b: "length (filter ?Q [0..<i]) = length (filter item_has_images (take i ?xs))"
    using assms by (simp add: length_filter_upt_take)
  have "i \<in> set (take (length (image_targets h c) - 2) (image_targets h c)) \<longleftrightarrow>
      i < length ?xs \<and> ?Q i \<and> length (filter ?Q [0..<i]) < length (image_targets h c) - 2"
    by (subst (2) image_targets_items) (rule take_filter_upt)
  also have "\<dots> \<longleftrightarrow> ?Q i \<and> 2 \<le> length (filter item_has_images (drop (Suc i) ?xs))"
    using assms count_split [OF assms, of item_has_images] by (auto simp: k b)
  finally show ?thesis .
qed

lemma prune_items:
  "all_items (fst (prune_images_to_last_two_user_messages h c))
             (snd (prune_images_to_last_two_user_messages h c)) =
   keep_last_two item_has_images item_pop_images (all_items h c)"
proof (rule nth_equalityI)
  show "length (all_items (fst (prune_images_to_last_two_user_messages h c))
      (snd (prune_images_to_last_two_user_messages h c))) =
    length (keep_last_two item_has_images item_pop_images (all_items h c))"
    by (simp add: all_items_def prune_images_to_last_two_user_messages_def Let_def)
next
  fix i
  assume "i < length (all_items (fst (prune_images_to_last_two_user_messages h c))
      (snd (prune_images_to_last_two_user_messages h c)))"
  then have i: "i < length (all_items h c)"
    by (simp add: all_items_def prune_images_to_last_two_user_messages_def Let_def)
  have nth: "keep_last_two item_has_images item_pop_images (all_items h c) ! i =
      (if i \<in> set (take (length (image_targets h c) - 2) (image_targets h c))
       then item_pop_images (all_items h c ! i) else all_items h c ! i)"
    using keep_last_two_nth [OF i, of item_has_images item_pop_images] member_pruned [OF i]
    by simp
  show "all_items (fst (prune_images_to_last_two_user_messages h c))
      (snd (prune_images_to_last_two_user_messages h c)) ! i =
    keep_last_two item_has_images item_pop_images (all_items h c) ! i"
    unfolding nth using i
    by (cases "i < length h")
      (auto simp: all_items_def prune_images_to_last_two_user_messages_def Let_def nth_append
        item_pop_images_def less_Suc_eq)
qed


lemma not_has_images_pop [simp]: "\<not> has_images (pop_images u)"
  by (simp add: has_images_def pop_images_def)

lemma not_item_has_images_pop [simp]: "\<not> item_has_images (item_pop_images x)"
  by (cases x) (simp_all add: item_has_images_def item_pop_images_def)

lemma users_of_append [simp]: "users_of (xs @ ys) = users_of xs @ users_of ys"
  by (induction xs rule: users_of.induct) simp_all

lemma item_images_simps [simp]:
  "item_has_images (UserInputMessage u) = has_images u"
  "item_has_images (AssistantResponseMessage a) = False"
  "item_pop_images (UserInputMessage u) = UserInputMessage (pop_images u)"
  "item_pop_images (AssistantResponseMessage a) = AssistantResponseMessage a"
  by (simp_all add: item_has_images_def item_pop_images_def)

lemma filter_users_of:
  "length (filter item_has_images xs) = length (filter has_images (users_of xs))"
  by (induction xs rule: users_of.induct) simp_all

lemma users_of_keep_last_two:
  "users_of (keep_last_two item_has_images item_pop_images xs) =
   keep_last_two has_images pop_images (users_of xs)"
  by (induction xs rule: users_of.induct) (simp_all add: filter_users_of)

lemma user_messages_items: "user_messages h c = users_of (all_items h c)"
  by (simp add: user_messages_def all_items_def)

lemma prune_user_messages:
  "user_messages (fst (prune_images_to_last_two_user_messages h c))
                 (snd (prune_images_to_last_two_user_messages h c)) =
   keep_last_two has_images pop_images (user_messages h c)"
  by (simp only: user_messages_items prune_items users_of_keep_last_two)

text \<open>
  Claim C6. After the pruning, at most two user messages of the outbound body
  (history and current message) carry a non-empty \<open>images\<close> field; the messages that
  carry one are exactly the last two that carried one before, unchanged; and every
  earlier user message that carried images has lost the field, everything else being
  left as it was.
\<close>

theorem prune_keeps_last_two:
  assumes "prune_images_to_last_two_user_messages history current_user = (history', current_user')"
  shows "length (filter has_images (user_messages history' current_user')) \<le> 2 \<and>
    filter has_images (user_messages history' current_user') =
      drop (length (filter has_images (user_messages history current_user)) - 2)
        (filter has_images (user_messages history current_user)) \<and>
    length (user_messages history' current_user') = length (user_messages history current_user) \<and>
    (\<forall>i < length (user_messages history current_user).
       user_messages history' current_user' ! i =
         (if has_images (user_messages history current_user ! i) \<and>
             2 \<le> length (filter has_images (drop (Suc i) (user_messages history current_user)))
          then pop_images (user_messages history current_user ! i)
          else user_messages history current_user ! i))"
proof -
  have u: "user_messages history' current_user' =
      keep_last_two has_images pop_images (user_messages history current_user)"
    using prune_user_messages [of history current_user] assms by simp
  have f: "filter has_images (user_messages history' current_user') =
      drop (length (filter has_images (user_messages history current_user)) - 2)
        (filter has_images (user_messages history current_user))"
    unfolding u by (rule keep_last_two_filter) simp
  have "length (filter has_images (user_messages history' current_user')) \<le> 2"
    unfolding f by simp
  with f show ?thesis
    by (simp add: u keep_last_two_nth)
qed


lemma prune_example:
  "prune_images_to_last_two_user_messages example_history example_current =
     (example_pruned_history, example_current)"
  by code_simp

theorem prune_keeps_last_two_witness:
  "prune_images_to_last_two_user_messages example_history example_current =
     (example_pruned_history, example_current) \<and>
   length (filter has_images (user_messages example_pruned_history example_current)) \<le> 2 \<and>
   filter has_images (user_messages example_pruned_history example_current) =
     drop (length (filter has_images (user_messages example_history example_current)) - 2)
       (filter has_images (user_messages example_history example_current))"
  using prune_keeps_last_two [OF prune_example] prune_example by blast

section \<open>Account statistics\<close>

text \<open>
  The tables \<open>accounts\<close> and \<open>quota_stats\<close>, keyed by the account id, with the columns
  that \<open>update_account_stats\<close> and the two \<open>QuotaService\<close> calls it makes read or
  write. The SQL flags \<open>0\<close>/\<open>1\<close> are booleans.
\<close>

record account =
  success_count :: int
  error_count :: int
  quota_exhausted :: bool
  enabled :: bool
  updated_at :: string

record quota_row =
  month_key :: string
  request_count :: int
  throttle_count :: int
  last_throttle_time :: "int option"
  quota_status :: string
  stats_updated_at :: int

record database =
  accounts :: "string \<rightharpoonup> account"
  quota_stats :: "string \<rightharpoonup> quota_row"

text \<open>
  What the calls read from the clock: \<open>time.strftime(...)\<close>, \<open>int(time.time())\<close> and
  \<open>QuotaService.get_month_key()\<close>.
\<close>

record clock =
  now_iso :: string
  now_epoch :: int
  current_month :: string

text \<open>\<open>UPDATE accounts SET ... WHERE id=?\<close>: one row at most is rewritten, from its old columns.\<close>

definition update_account :: "string \<Rightarrow> (account \<Rightarrow> account) \<Rightarrow> database \<Rightarrow> database" where
  "update_account account_id f db =
     (case accounts db account_id of
        None \<Rightarrow> db
      | Some row \<Rightarrow> db\<lparr>accounts := (accounts db)(account_id \<mapsto> f row)\<rparr>)"

text \<open>\<open>QuotaService.record_request\<close>: an insert, or on conflict an update of the counters.\<close>

definition record_request :: "clock \<Rightarrow> string \<Rightarrow> bool \<Rightarrow> database \<Rightarrow> database" where
  "record_request clk account_id is_throttled db =
     (let now = now_epoch clk in
      case quota_stats db account_id of
        None \<Rightarrow>
          db\<lparr>quota_stats := (quota_stats db)(account_id \<mapsto>
            \<lparr>month_key = current_month clk, request_count = 1,
             throttle_count = (if is_throttled then 1 else 0),
             last_throttle_time = (if is_throttled then Some now else None),
             quota_status = ''normal'', stats_updated_at = now\<rparr>)\<rparr>
      | Some row \<Rightarrow>
          db\<lparr>quota_stats := (quota_stats db)(account_id \<mapsto>
            (if is_throttled then
               row\<lparr>request_count := request_count row + 1,
                   throttle_count := throttle_count row + 1,
                   last_throttle_time := Some now, stats_updated_at := now\<rparr>
             else row\<lparr>request_count := request_count row + 1, stats_updated_at := now\<rparr>))\<rparr>)"

text \<open>
  \<open>QuotaService.update_quota_status\<close>. \<open>ratio_status\<close> stands for the floating-point
  comparison of \<open>throttle_count / request_count\<close> with the two thresholds.
\<close>

definition update_quota_status ::
  "(int \<Rightarrow> int \<Rightarrow> string) \<Rightarrow> clock \<Rightarrow> string \<Rightarrow> database \<Rightarrow> database"
where
  "update_quota_status ratio_status clk account_id db =
     (case quota_stats db account_id of
        None \<Rightarrow> db
      | Some row \<Rightarrow>
          if month_key row \<noteq> current_month clk then db
          else
            (let status =
               (if throttle_count row > 0 then ''exhausted''
                else if request_count row > 0
                  then ratio_status (throttle_count row) (request_count row)
                else ''normal'')
             in db\<lparr>quota_stats := (quota_stats db)(account_id \<mapsto>
                  row\<lparr>quota_status := status, stats_updated_at := now_epoch clk\<rparr>)\<rparr>))"

text \<open>\<open>update_account_stats\<close> of \<open>src/services/account_service.py\<close>.\<close>

definition update_account_stats ::
  "int \<Rightarrow> (int \<Rightarrow> int \<Rightarrow> string) \<Rightarrow> clock \<Rightarrow> string \<Rightarrow> bool \<Rightarrow> bool \<Rightarrow> bool \<Rightarrow>
   database \<Rightarrow> database"
where
  "update_account_stats MAX_ERROR_COUNT ratio_status clk account_id success is_throttled
     quota_exhausted_arg db =
     (let now = now_iso clk;
          db1 = record_request clk account_id is_throttled db;
          db2 =
            (if success then
               update_account account_id
                 (\<lambda>row. row\<lparr>success_count := success_count row + 1, error_count := 0,
                    quota_exhausted := False, updated_at := now\<rparr>) db1
             else if quota_exhausted_arg then
               update_account account_id
                 (\<lambda>row. row\<lparr>quota_exhausted := True, enabled := False, updated_at := now\<rparr>) db1
             else
               update_account account_id
                 (\<lambda>row. row\<lparr>error_count := error_count row + 1,
                    enabled := (if error_count row + 1 \<ge> MAX_ERROR_COUNT then False
                                else enabled row),
                    updated_at := now\<rparr>) db1)
      in if is_throttled then update_quota_status ratio_status clk account_id db2 else db2)"

text \<open>An account one error away from the limit 3.\<close>

definition example_account :: account where
  "example_account =
     \<lparr>success_count = 7, error_count = 2, quota_exhausted = False, enabled = True,
      updated_at = ''2024-01-01T00:00:00''\<rparr>"

definition example_db :: database where
  "example_db = \<lparr>accounts = [''acc-1'' \<mapsto> example_account], quota_stats = Map.empty\<rparr>"

definition example_clock :: clock where
  "example_clock =
     \<lparr>now_iso = ''2024-06-01T12:00:00'', now_epoch = 1717243200, current_month = ''2024-06''\<rparr>"

subsection \<open>Properties of the statistics update\<close>

lemma accounts_record_request [simp]: "accounts (record_request clk i t db) = accounts db"
  by (simp add: record_request_def Let_def split: option.splits)

lemma accounts_update_quota_status [simp]: "accounts (update_quota_status rs clk i db) = accounts db"
  by (simp add: update_quota_status_def Let_def split: option.splits)

lemma accounts_update_account:
  "accounts (update_account i f db) = (case accounts db i of None \<Rightarrow> accounts db | Some row \<Rightarrow> (accounts db)(i \<mapsto> f row))"
  by (simp add: update_account_def split: option.splits)

text \<open>
  Claim C1. For an account row with the given id: a success adds 1 to
  \<open>success_count\<close> and sets \<open>error_count\<close> to 0 and \<open>quota_exhausted\<close> to false; a failure
  with \<open>quota_exhausted=true\<close> sets \<open>quota_exhausted\<close> to true and \<open>enabled\<close> to false and
  leaves \<open>error_count\<close> as it was; any other failure adds 1 to \<open>error_count\<close> and, in the
  same update, sets \<open>enabled\<close> to false exactly when the incremented count has reached
  \<open>MAX_ERROR_COUNT\<close> (otherwise \<open>enabled\<close> keeps its value). Besides \<open>updated_at\<close>, no
  other column and no other account changes.
\<close>

theorem update_account_stats_effect:
  assumes "accounts db account_id = Some row"
  shows
   "accounts (update_account_stats M rs clk account_id True thr qe db) account_id =
      Some (row\<lparr>success_count := success_count row + 1, error_count := 0,
                 quota_exhausted := False, updated_at := now_iso clk\<rparr>) \<and>
    accounts (update_account_stats M rs clk account_id False thr True db) account_id =
      Some (row\<lparr>quota_exhausted := True, enabled := False, updated_at := now_iso clk\<rparr>) \<and>
    accounts (update_account_stats M rs clk account_id False thr False db) account_id =
      Some (row\<lparr>error_count := error_count row + 1,
                 enabled := (if error_count row + 1 \<ge> M then False else enabled row),
                 updated_at := now_iso clk\<rparr>) \<and>
    (other \<noteq> account_id \<longrightarrow>
       accounts (update_account_stats M rs clk account_id success thr qe db) other =
       accounts db other)"
  using assms
  by (auto simp: update_account_stats_def Let_def accounts_update_account)

theorem update_account_stats_effect_witness:
  "accounts example_db ''acc-1'' = Some example_account \<and>
   accounts (update_account_stats 3 (\<lambda>t r. ''normal'') example_clock ''acc-1'' True False False
      example_db) ''acc-1'' =
     Some \<lparr>success_count = 8, error_count = 0, quota_exhausted = False, enabled = True,
           updated_at = ''2024-06-01T12:00:00''\<rparr> \<and>
   accounts (update_account_stats 3 (\<lambda>t r. ''normal'') example_clock ''acc-1'' False False True
      example_db) ''acc-1'' =
     Some \<lparr>success_count = 7, error_count = 2, quota_exhausted = True, enabled = False,
           updated_at = ''2024-06-01T12:00:00''\<rparr> \<and>
   accounts (update_account_stats 3 (\<lambda>t r. ''normal'') example_clock ''acc-1'' False False False
      example_db) ''acc-1'' =
     Some \<lparr>success_count = 7, error_count = 3, quota_exhausted = False, enabled = False,
           updated_at = ''2024-06-01T12:00:00''\<rparr>"
proof -
  have h: "accounts example_db ''acc-1'' = Some example_account"
    by (simp add: example_db_def)
  from update_account_stats_effect [OF h, of 3 "\<lambda>t r. ''normal''" example_clock False False]
  show ?thesis
    by (simp add: h example_account_def example_clock_def)
qed

section \<open>API key verification\<close>


text \<open>
  \<open>AdvancedKeyManager.verify_key\<close> of \<open>src/security/advanced.py\<close>. Of \<open>SecureKeyInfo\<close>
  the model keeps the fields that \<open>verify_key\<close> and its helpers read or write
  (\<open>security_level\<close>, \<open>metadata\<close>, \<open>allowed_account_ids\<close>, \<open>default_account_id\<close> and
  \<open>encrypted_key\<close> are neither read nor written there and are left out). Instants are
  whole seconds since the epoch, and a call reads the clock once. The \<open>try\<close> block
  around the checks catches no exception of the operations modelled here.
\<close>

datatype key_status = ACTIVE | INACTIVE | COMPROMISED | EXPIRED

record secure_key_info =
  key_id :: string
  key_hash :: string
  salt :: string
  created_at :: int
  expires_at :: "int option"
  last_used :: "int option"
  usage_count :: int
  max_uses :: "int option"
  allowed_ips :: "string list"
  allowed_user_agents :: "string list"
  rate_limit_per_minute :: int
  status :: key_status

text \<open>
  The manager: its dictionaries, its limits, and the table \<open>secure_keys\<close> as the list of
  its rows in the order \<open>fetchall\<close> returns them (\<open>None\<close> when no database is set; a
  database call does not fail in the model).
\<close>

record key_manager =
  keys :: "string \<rightharpoonup> secure_key_info"
  key_lookup :: "string \<rightharpoonup> string"
  failed_attempts :: "string \<rightharpoonup> int list"
  rate_limits :: "string \<rightharpoonup> int list"
  db_rows :: "secure_key_info list option"
  max_failed_attempts :: int
  block_duration_minutes :: int
  default_rate_limit :: int

text \<open>
  \<open>_calculate_lookup_hash\<close> (HMAC-SHA256 under the master key) and \<open>_hash_key\<close> (SHA-512,
  then HMAC-SHA512) are parameters; \<open>hmac.compare_digest\<close> is equality.
\<close>

record hashing =
  calculate_lookup_hash :: "string \<Rightarrow> string"
  hash_key :: "string \<Rightarrow> string \<Rightarrow> string"

text \<open>The arguments of one call, and the instant at which it is made.\<close>

record verify_request =
  api_key :: string
  client_ip :: "string option"
  user_agent :: "string option"
  now :: int

text \<open>Truth value of an optional string: neither \<open>None\<close> nor empty.\<close>

definition truthy :: "string option \<Rightarrow> bool" where
  "truthy s = (case s of None \<Rightarrow> False | Some x \<Rightarrow> x \<noteq> [])"

text \<open>\<open>self.keys[k].status = s\<close>: the key objects are shared with the dictionary.\<close>

definition set_status :: "key_manager \<Rightarrow> string \<Rightarrow> key_status \<Rightarrow> key_manager" where
  "set_status st k s =
     (case keys st k of
        None \<Rightarrow> st
      | Some key_info \<Rightarrow> st\<lparr>keys := (keys st)(k \<mapsto> key_info\<lparr>status := s\<rparr>)\<rparr>)"

definition record_failed_attempt :: "key_manager \<Rightarrow> int \<Rightarrow> string option \<Rightarrow> string \<Rightarrow> key_manager" where
  "record_failed_attempt st t ip k =
     (case ip of
        None \<Rightarrow> st
      | Some a \<Rightarrow>
          if a = [] then st
          else
            (let attempts = (case failed_attempts st a of None \<Rightarrow> [] | Some xs \<Rightarrow> xs) @ [t];
                 cutoff_time = t - 3600;
                 recent = filter (\<lambda>attempt. attempt > cutoff_time) attempts;
                 st1 = st\<lparr>failed_attempts := (failed_attempts st)(a \<mapsto> recent)\<rparr>
             in if int (length recent) \<ge> max_failed_attempts st1
                then set_status st1 k COMPROMISED else st1))"

definition is_blocked :: "key_manager \<Rightarrow> int \<Rightarrow> string option \<Rightarrow> bool" where
  "is_blocked st t ip =
     (case ip of
        None \<Rightarrow> False
      | Some a \<Rightarrow>
          if a = [] then False
          else
            (case failed_attempts st a of
               None \<Rightarrow> False
             | Some xs \<Rightarrow>
                 (let cutoff_time = t - block_duration_minutes st * 60;
                      recent_failures = filter (\<lambda>attempt. attempt > cutoff_time) xs
                  in int (length recent_failures) \<ge> max_failed_attempts st)))"

definition clear_failed_attempts :: "key_manager \<Rightarrow> string option \<Rightarrow> key_manager" where
  "clear_failed_attempts st ip =
     (case ip of
        None \<Rightarrow> st
      | Some a \<Rightarrow> st\<lparr>failed_attempts := (failed_attempts st)(a := None)\<rparr>)"

definition check_rate_limit :: "key_manager \<Rightarrow> int \<Rightarrow> string \<Rightarrow> int \<Rightarrow> bool \<times> key_manager" where
  "check_rate_limit st t k limit_per_minute =
     (let minute_start = t - (t mod 60);
          stamps = filter (\<lambda>timestamp. timestamp > minute_start)
                     (case rate_limits st k of None \<Rightarrow> [] | Some xs \<Rightarrow> xs)
      in if int (length stamps) \<ge> limit_per_minute
         then (False, st\<lparr>rate_limits := (rate_limits st)(k \<mapsto> stamps)\<rparr>)
         else (True, st\<lparr>rate_limits := (rate_limits st)(k \<mapsto> stamps @ [t])\<rparr>))"

text \<open>\<open>str.split("-")\<close>, and \<open>str.lower\<close> on ASCII letters.\<close>

fun split_on :: "char \<Rightarrow> string \<Rightarrow> string list" where
  "split_on c [] = [[]]"
| "split_on c (x # xs) =
     (if x = c then [] # split_on c xs
      else (case split_on c xs of [] \<Rightarrow> [[x]] | p # ps \<Rightarrow> (x # p) # ps))"

definition lower_char :: "char \<Rightarrow> char" where
  "lower_char c =
     (let n = (of_char c :: nat) in if 65 \<le> n \<and> n \<le> 90 then char_of (n + 32) else c)"

definition lower :: "string \<Rightarrow> string" where
  "lower s = map lower_char s"

text \<open>The fallback on the key format \<open>sk-<key_id>-...\<close> with six parts.\<close>

definition legacy_key_id :: "hashing \<Rightarrow> key_manager \<Rightarrow> string \<Rightarrow> string option" where
  "legacy_key_id h st k =
     (if CHR ''-'' \<in> set (drop 3 k) then
        (let parts = split_on CHR ''-'' k in
         if length parts = 6 then
           (case keys st (parts ! 1) of
              None \<Rightarrow> None
            | Some cand_info \<Rightarrow>
                if key_hash cand_info = hash_key h k (salt cand_info)
                then Some (parts ! 1) else None)
         else None)
      else None)"

text \<open>
  \<open>_load_key_from_db_by_api_key\<close>: the first active row whose hash matches is loaded
  into \<open>keys\<close> and \<open>key_lookup\<close>.
\<close>

definition load_key_from_db_by_api_key ::
  "hashing \<Rightarrow> key_manager \<Rightarrow> string \<Rightarrow> key_manager \<times> secure_key_info option"
where
  "load_key_from_db_by_api_key h st k =
     (case db_rows st of
        None \<Rightarrow> (st, None)
      | Some rows \<Rightarrow>
          (case find (\<lambda>row. status row = ACTIVE \<and> hash_key h k (salt row) = key_hash row) rows of
             None \<Rightarrow> (st, None)
           | Some row \<Rightarrow>
               (let key_info = row\<lparr>rate_limit_per_minute :=
                      (if rate_limit_per_minute row = 0 then default_rate_limit st
                       else rate_limit_per_minute row)\<rparr>
                in (st\<lparr>keys := (keys st)(key_id key_info \<mapsto> key_info),
                        key_lookup := (key_lookup st)(calculate_lookup_hash h k \<mapsto> key_id key_info)\<rparr>,
                    Some key_info))))"

text \<open>The two \<open>UPDATE secure_keys\<close> statements.\<close>

definition update_key_status_in_db :: "key_manager \<Rightarrow> string \<Rightarrow> key_status \<Rightarrow> key_manager" where
  "update_key_status_in_db st k s =
     (case db_rows st of
        None \<Rightarrow> st
      | Some rows \<Rightarrow>
          st\<lparr>db_rows := Some (map (\<lambda>row. if key_id row = k then row\<lparr>status := s\<rparr> else row) rows)\<rparr>)"

definition update_key_usage_in_db :: "key_manager \<Rightarrow> string \<Rightarrow> key_manager" where
  "update_key_usage_in_db st k =
     (case db_rows st of
        None \<Rightarrow> st
      | Some rows \<Rightarrow>
          (case keys st k of
             None \<Rightarrow> st
           | Some key_info \<Rightarrow>
               st\<lparr>db_rows := Some (map (\<lambda>row. if key_id row = k
                     then row\<lparr>last_used := last_used key_info, usage_count := usage_count key_info\<rparr>
                     else row) rows)\<rparr>))"

text \<open>
  The key id found in memory, if any: by the lookup hash or by the legacy format, and
  present in \<open>keys\<close> (\<open>not key_id or key_id not in self.keys\<close> sends the call to the
  database).
\<close>

definition memory_key_id :: "hashing \<Rightarrow> key_manager \<Rightarrow> string \<Rightarrow> string option" where
  "memory_key_id h st k =
     (let found = (case key_lookup st (calculate_lookup_hash h k) of
                     None \<Rightarrow> None
                   | Some i \<Rightarrow> if i = [] then None else Some i);
          found' = (case found of Some i \<Rightarrow> Some i | None \<Rightarrow> legacy_key_id h st k)
      in case found' of
           None \<Rightarrow> None
         | Some i \<Rightarrow> if i \<noteq> [] \<and> keys st i \<noteq> None then Some i else None)"

text \<open>The key the call is about: its id and its record, after the database fallback.\<close>

definition resolve_key ::
  "hashing \<Rightarrow> key_manager \<Rightarrow> verify_request \<Rightarrow> key_manager \<times> (string \<times> secure_key_info) option"
where
  "resolve_key h st req =
     (case memory_key_id h st (api_key req) of
        None \<Rightarrow>
          (case load_key_from_db_by_api_key h st (api_key req) of
             (st1, Some key_info) \<Rightarrow> (st1, Some (key_id key_info, key_info))
           | (st1, None) \<Rightarrow>
               (record_failed_attempt st1 (now req) (client_ip req) ''unknown'', None))
      | Some i \<Rightarrow>
          (case keys st i of
             Some key_info \<Rightarrow> (st, Some (i, key_info))
           | None \<Rightarrow> (record_failed_attempt st (now req) (client_ip req) i, None)))"

text \<open>The checks of \<open>verify_key\<close>, in the order of the source.\<close>

definition hash_matches :: "hashing \<Rightarrow> verify_request \<Rightarrow> secure_key_info \<Rightarrow> bool" where
  "hash_matches h req key_info = (key_hash key_info = hash_key h (api_key req) (salt key_info))"

definition expired :: "verify_request \<Rightarrow> secure_key_info \<Rightarrow> bool" where
  "expired req key_info =
     (case expires_at key_info of None \<Rightarrow> False | Some e \<Rightarrow> now req > e)"

definition usage_limit_reached :: "secure_key_info \<Rightarrow> bool" where
  "usage_limit_reached key_info =
     (case max_uses key_info of
        None \<Rightarrow> False
      | Some m \<Rightarrow> m \<noteq> 0 \<and> usage_count key_info \<ge> m)"

definition ip_rejected :: "verify_request \<Rightarrow> secure_key_info \<Rightarrow> bool" where
  "ip_rejected req key_info =
     (allowed_ips key_info \<noteq> [] \<and> truthy (client_ip req) \<and>
      the (client_ip req) \<notin> set (allowed_ips key_info))"

definition user_agent_rejected :: "verify_request \<Rightarrow> secure_key_info \<Rightarrow> bool" where
  "user_agent_rejected req key_info =
     (allowed_user_agents key_info \<noteq> [] \<and> truthy (user_agent req) \<and>
      \<not> list_ex (\<lambda>ua. sublist (lower ua) (lower (the (user_agent req))))
          (allowed_user_agents key_info))"

text \<open>
  \<open>verify_key\<close>: the manager after the call, and the key returned (\<open>None\<close> on rejection).
  The usage limit is tested before the IP, User-Agent, rate-limit and block checks;
  the database is written after them.
\<close>

definition verify_key ::
  "hashing \<Rightarrow> key_manager \<Rightarrow> verify_request \<Rightarrow> key_manager \<times> secure_key_info option"
where
  "verify_key h st req =
     (if api_key req = [] then (st, None)
      else if \<not> prefix ''sk-'' (api_key req) then (st, None)
      else
        (case resolve_key h st req of
           (st1, None) \<Rightarrow> (st1, None)
         | (st1, Some (i, key_info)) \<Rightarrow>
             if \<not> hash_matches h req key_info then
               (record_failed_attempt st1 (now req) (client_ip req) i, None)
             else if status key_info \<noteq> ACTIVE then (st1, None)
             else if expired req key_info then (set_status st1 i EXPIRED, None)
             else if usage_limit_reached key_info then
               (update_key_status_in_db (set_status st1 i INACTIVE) (key_id key_info) INACTIVE,
                None)
             else if ip_rejected req key_info then
               (record_failed_attempt st1 (now req) (client_ip req) i, None)
             else if user_agent_rejected req key_info then
               (record_failed_attempt st1 (now req) (client_ip req) i, None)
             else
               (case check_rate_limit st1 (now req) i (rate_limit_per_minute key_info) of
                  (False, st2) \<Rightarrow> (st2, None)
                | (True, st2) \<Rightarrow>
                    if is_blocked st2 (now req) (client_ip req) then (st2, None)
                    else
                      (let used = key_info\<lparr>last_used := Some (now req),
                                           usage_count := usage_count key_info + 1\<rparr>;
                           st3 = st2\<lparr>keys := (keys st2)(i \<mapsto> used)\<rparr>;
                           st4 = clear_failed_attempts st3 (client_ip req)
                       in (update_key_usage_in_db st4 (key_id used), Some used)))))"

text \<open>
  Every check of \<open>verify_key\<close> but the usage limit passes: the key is resolved, its hash
  matches, it is active and not expired, the IP and the User-Agent are allowed, the
  rate limit has room and the IP is not blocked.
\<close>

definition other_checks_pass :: "hashing \<Rightarrow> key_manager \<Rightarrow> verify_request \<Rightarrow> bool" where
  "other_checks_pass h st req =
     (api_key req \<noteq> [] \<and> prefix ''sk-'' (api_key req) \<and>
      (case resolve_key h st req of
         (st1, None) \<Rightarrow> False
       | (st1, Some (i, key_info)) \<Rightarrow>
           hash_matches h req key_info \<and> status key_info = ACTIVE \<and>
           \<not> expired req key_info \<and> \<not> ip_rejected req key_info \<and>
           \<not> user_agent_rejected req key_info \<and>
           (case check_rate_limit st1 (now req) i (rate_limit_per_minute key_info) of
              (ok, st2) \<Rightarrow> ok \<and> \<not> is_blocked st2 (now req) (client_ip req))))"

text \<open>Successive calls on one manager, and the requirement that each passes the other checks.\<close>

fun verify_all ::
  "hashing \<Rightarrow> key_manager \<Rightarrow> verify_request list \<Rightarrow> key_manager \<times> secure_key_info option list"
where
  "verify_all h st [] = (st, [])"
| "verify_all h st (req # reqs) =
     (let (st', result) = verify_key h st req;
          (st'', results) = verify_all h st' reqs
      in (st'', result # results))"

fun all_pass :: "hashing \<Rightarrow> key_manager \<Rightarrow> verify_request list \<Rightarrow> bool" where
  "all_pass h st [] = True"
| "all_pass h st (req # reqs) =
     (other_checks_pass h st req \<and> all_pass h (fst (verify_key h st req)) reqs)"

text \<open>A manager holding one key, and requests for it.\<close>

definition example_hashing :: hashing where
  "example_hashing =
     \<lparr>calculate_lookup_hash = (\<lambda>k. ''lookup:'' @ k), hash_key = (\<lambda>k s. k @ '':'' @ s)\<rparr>"

definition example_key :: "int \<Rightarrow> int option \<Rightarrow> secure_key_info" where
  "example_key used limit =
     \<lparr>key_id = ''k1'', key_hash = ''sk-demo:pepper'', salt = ''pepper'', created_at = 0,
      expires_at = None, last_used = None, usage_count = used, max_uses = limit,
      allowed_ips = [''10.0.0.1''], allowed_user_agents = [''curl''],
      rate_limit_per_minute = 300, status = ACTIVE\<rparr>"

definition example_manager :: "secure_key_info \<Rightarrow> key_manager" where
  "example_manager key_info =
     \<lparr>keys = [''k1'' \<mapsto> key_info], key_lookup = [''lookup:sk-demo'' \<mapsto> ''k1''],
      failed_attempts = Map.empty, rate_limits = Map.empty, db_rows = None,
      max_failed_attempts = 5, block_duration_minutes = 30, default_rate_limit = 300\<rparr>"

definition example_request :: "string \<Rightarrow> int \<Rightarrow> verify_request" where
  "example_request ip t =
     \<lparr>api_key = ''sk-demo'', client_ip = Some ip, user_agent = Some ''Curl/8.0'', now = t\<rparr>"

subsection \<open>Properties of the verification\<close>

lemma keys_check_rate_limit [simp]:
  "keys (snd (check_rate_limit st t k l)) = keys st"
  "key_lookup (snd (check_rate_limit st t k l)) = key_lookup st"
  "db_rows (snd (check_rate_limit st t k l)) = db_rows st"
  by (simp_all add: check_rate_limit_def Let_def)

lemma keys_clear_failed_attempts [simp]:
  "keys (clear_failed_attempts st ip) = keys st"
  "key_lookup (clear_failed_attempts st ip) = key_lookup st"
  "db_rows (clear_failed_attempts st ip) = db_rows st"
  by (simp_all add: clear_failed_attempts_def split: option.splits)

lemma keys_update_key_usage_in_db [simp]:
  "keys (update_key_usage_in_db st k) = keys st"
  "key_lookup (update_key_usage_in_db st k) = key_lookup st"
  by (simp_all add: update_key_usage_in_db_def split: option.splits)

lemma keys_update_key_status_in_db [simp]:
  "keys (update_key_status_in_db st k s) = keys st"
  "key_lookup (update_key_status_in_db st k s) = key_lookup st"
  by (simp_all add: update_key_status_in_db_def split: option.splits)

lemma keys_set_status:
  "keys (set_status st k s) j =
     (if j = k then map_option (\<lambda>x. x\<lparr>status := s\<rparr>) (keys st k) else keys st j)"
  by (simp add: set_status_def split: option.splits)

lemma set_status_frame [simp]:
  "key_lookup (set_status st k s) = key_lookup st"
  "db_rows (set_status st k s) = db_rows st"
  "failed_attempts (set_status st k s) = failed_attempts st"
  "max_failed_attempts (set_status st k s) = max_failed_attempts st"
  by (simp_all add: set_status_def split: option.splits)

lemma keys_record_failed_attempt:
  "keys (record_failed_attempt st t ip k) j = keys st j \<or>
   (j = k \<and> keys (record_failed_attempt st t ip k) j =
      map_option (\<lambda>x. x\<lparr>status := COMPROMISED\<rparr>) (keys st k))"
  by (auto simp: record_failed_attempt_def Let_def keys_set_status split: option.splits)

lemma record_failed_attempt_frame [simp]:
  "key_lookup (record_failed_attempt st t ip k) = key_lookup st"
  "db_rows (record_failed_attempt st t ip k) = db_rows st"
  by (simp_all add: record_failed_attempt_def Let_def split: option.splits)

lemma resolve_key_keys:
  assumes "resolve_key h st req = (st1, Some (i, key_info))"
  shows "keys st1 i = Some key_info"
  using assms
  by (auto simp: resolve_key_def load_key_from_db_by_api_key_def Let_def
      split: option.splits prod.splits)

lemma verify_key_resolved:
  assumes "api_key req \<noteq> []" "prefix ''sk-'' (api_key req)"
    and "resolve_key h st req = (st1, Some (i, key_info))"
  shows "verify_key h st req =
    (if \<not> hash_matches h req key_info then
       (record_failed_attempt st1 (now req) (client_ip req) i, None)
     else if status key_info \<noteq> ACTIVE then (st1, None)
     else if expired req key_info then (set_status st1 i EXPIRED, None)
     else if usage_limit_reached key_info then
       (update_key_status_in_db (set_status st1 i INACTIVE) (key_id key_info) INACTIVE, None)
     else if ip_rejected req key_info then
       (record_failed_attempt st1 (now req) (client_ip req) i, None)
     else if user_agent_rejected req key_info then
       (record_failed_attempt st1 (now req) (client_ip req) i, None)
     else if \<not> fst (check_rate_limit st1 (now req) i (rate_limit_per_minute key_info)) then
       (snd (check_rate_limit st1 (now req) i (rate_limit_per_minute key_info)), None)
     else if is_blocked (snd (check_rate_limit st1 (now req) i (rate_limit_per_minute key_info)))
          (now req) (client_ip req) then
       (snd (check_rate_limit st1 (now req) i (rate_limit_per_minute key_info)), None)
     else
       (update_key_usage_in_db
          (clear_failed_attempts
             ((snd (check_rate_limit st1 (now req) i (rate_limit_per_minute key_info)))
                \<lparr>keys := (keys st1)(i \<mapsto> key_info\<lparr>last_used := Some (now req),
                      usage_count := usage_count key_info + 1\<rparr>)\<rparr>)
             (client_ip req))
          (key_id key_info),
        Some (key_info\<lparr>last_used := Some (now req), usage_count := usage_count key_info + 1\<rparr>)))"
proof -
  obtain ok st2 where
    crl: "check_rate_limit st1 (now req) i (rate_limit_per_minute key_info) = (ok, st2)"
    by (cases "check_rate_limit st1 (now req) i (rate_limit_per_minute key_info)") auto
  have k: "keys st2 = keys st1"
    using keys_check_rate_limit(1) [of st1 "now req" i "rate_limit_per_minute key_info"] crl
    by simp
  show ?thesis
    using assms(1,2)
    by (cases ok) (simp_all add: verify_key_def assms(3) crl k Let_def)
qed

lemma verify_key_pass:
  assumes "other_checks_pass h st req" and "resolve_key h st req = (st1, Some (i, key_info))"
  shows "usage_limit_reached key_info \<longrightarrow>
           snd (verify_key h st req) = None \<and>
           keys (fst (verify_key h st req)) i = Some (key_info\<lparr>status := INACTIVE\<rparr>)"
    and "\<not> usage_limit_reached key_info \<longrightarrow>
           snd (verify_key h st req) =
             Some (key_info\<lparr>last_used := Some (now req), usage_count := usage_count key_info + 1\<rparr>) \<and>
           keys (fst (verify_key h st req)) i =
             Some (key_info\<lparr>last_used := Some (now req), usage_count := usage_count key_info + 1\<rparr>)"
proof -
  from assms have a: "api_key req \<noteq> []" "prefix ''sk-'' (api_key req)"
    and c: "hash_matches h req key_info" "status key_info = ACTIVE" "\<not> expired req key_info"
      "\<not> ip_rejected req key_info" "\<not> user_agent_rejected req key_info"
      "fst (check_rate_limit st1 (now req) i (rate_limit_per_minute key_info))"
      "\<not> is_blocked (snd (check_rate_limit st1 (now req) i (rate_limit_per_minute key_info)))
          (now req) (client_ip req)"
    by (auto simp: other_checks_pass_def split: prod.splits)
  note v = verify_key_resolved [OF a assms(2)]
  from resolve_key_keys [OF assms(2)] c
  show "usage_limit_reached key_info \<longrightarrow>
           snd (verify_key h st req) = None \<and>
           keys (fst (verify_key h st req)) i = Some (key_info\<lparr>status := INACTIVE\<rparr>)"
    by (simp add: v keys_set_status)
  from c show "\<not> usage_limit_reached key_info \<longrightarrow>
           snd (verify_key h st req) =
             Some (key_info\<lparr>last_used := Some (now req), usage_count := usage_count key_info + 1\<rparr>) \<and>
           keys (fst (verify_key h st req)) i =
             Some (key_info\<lparr>last_used := Some (now req), usage_count := usage_count key_info + 1\<rparr>)"
    by (simp add: v)
qed

lemma resolve_key_memory:
  assumes "memory_key_id h st (api_key req) = Some i" and "keys st i = Some key_info"
  shows "resolve_key h st req = (st, Some (i, key_info))"
  using assms by (simp add: resolve_key_def)

lemma legacy_key_id_cong:
  assumes "keys st' = (keys st)(i \<mapsto> x)" and "keys st i = Some key_info"
    and "key_hash x = key_hash key_info" and "salt x = salt key_info"
  shows "legacy_key_id h st' a = legacy_key_id h st a"
proof (cases "split_on CHR ''-'' a ! 1 = i")
  case True
  with assms show ?thesis by (simp add: legacy_key_id_def Let_def)
next
  case False
  with assms show ?thesis by (simp add: legacy_key_id_def Let_def)
qed

lemma memory_key_id_cong:
  assumes "key_lookup st' = key_lookup st" and "keys st' = (keys st)(i \<mapsto> x)"
    and "keys st i = Some key_info"
    and "key_hash x = key_hash key_info" and "salt x = salt key_info"
  shows "memory_key_id h st' a = memory_key_id h st a"
proof -
  have d: "keys st' j \<noteq> None \<longleftrightarrow> keys st j \<noteq> None" for j
    using assms(2,3) by simp
  show ?thesis
    unfolding memory_key_id_def legacy_key_id_cong [OF assms(2-5)] assms(1) Let_def
    by (simp only: d)
qed

lemma verify_key_success_state:
  assumes pass: "other_checks_pass h st req"
    and mem: "memory_key_id h st (api_key req) = Some i"
    and key: "keys st i = Some key_info"
    and free: "\<not> usage_limit_reached key_info"
  shows "memory_key_id h (fst (verify_key h st req)) a = memory_key_id h st a"
proof -
  note r = resolve_key_memory [OF mem key]
  from pass r have a: "api_key req \<noteq> []" "prefix ''sk-'' (api_key req)"
    and c: "hash_matches h req key_info" "status key_info = ACTIVE" "\<not> expired req key_info"
      "\<not> ip_rejected req key_info" "\<not> user_agent_rejected req key_info"
      "fst (check_rate_limit st (now req) i (rate_limit_per_minute key_info))"
      "\<not> is_blocked (snd (check_rate_limit st (now req) i (rate_limit_per_minute key_info)))
          (now req) (client_ip req)"
    by (auto simp: other_checks_pass_def split: prod.splits)
  let ?used = "key_info\<lparr>last_used := Some (now req), usage_count := usage_count key_info + 1\<rparr>"
  have "key_lookup (fst (verify_key h st req)) = key_lookup st"
    "keys (fst (verify_key h st req)) = (keys st)(i \<mapsto> ?used)"
    using c free by (simp_all add: verify_key_resolved [OF a r])
  then show ?thesis
    by (rule memory_key_id_cong) (simp_all add: key)
qed

lemma verify_all_counts:
  assumes "\<forall>r \<in> set reqs. api_key r = a"
    and "memory_key_id h st a = Some i" and "keys st i = Some key_info"
    and "max_uses key_info = Some (int N)" and "usage_count key_info = int c"
    and "1 \<le> N" and "c \<le> N" and "length reqs = N - c + 1"
    and "all_pass h st reqs"
  shows "map (map_option usage_count) (snd (verify_all h st reqs)) =
           map (\<lambda>j. Some (int j + 1)) [c..<N] @ [None] \<and>
         map_option status (keys (fst (verify_all h st reqs)) i) = Some INACTIVE \<and>
         map_option usage_count (keys (fst (verify_all h st reqs)) i) = Some (int N)"
  using assms
proof (induction reqs arbitrary: st key_info c)
  case Nil
  then show ?case by simp
next
  case (Cons req reqs)
  from Cons.prems have a: "api_key req = a" and pass: "other_checks_pass h st req"
    and rest: "all_pass h (fst (verify_key h st req)) reqs"
    by simp_all
  from Cons.prems a have mem: "memory_key_id h st (api_key req) = Some i" by simp
  note r = resolve_key_memory [OF mem Cons.prems(3)]
  note step = verify_key_pass [OF pass r]
  show ?case
  proof (cases "c = N")
    case True
    with Cons.prems have lim: "usage_limit_reached key_info" and e: "reqs = []"
      by (simp_all add: usage_limit_reached_def)
    from step(1) lim True Cons.prems(5) Cons.prems(4) show ?thesis
      by (simp add: e split_beta)
  next
    case False
    with Cons.prems have lt: "c < N" and free: "\<not> usage_limit_reached key_info"
      by (simp_all add: usage_limit_reached_def)
    let ?used = "key_info\<lparr>last_used := Some (now req), usage_count := usage_count key_info + 1\<rparr>"
    let ?st = "fst (verify_key h st req)"
    from step(2) free have res: "snd (verify_key h st req) = Some ?used"
      and k': "keys ?st i = Some ?used" by simp_all
    have m': "memory_key_id h ?st a = Some i"
      using verify_key_success_state [OF pass mem Cons.prems(3) free, of a] Cons.prems(2)
      by simp
    have ih: "map (map_option usage_count) (snd (verify_all h ?st reqs)) =
           map (\<lambda>j. Some (int j + 1)) [Suc c..<N] @ [None] \<and>
         map_option status (keys (fst (verify_all h ?st reqs)) i) = Some INACTIVE \<and>
         map_option usage_count (keys (fst (verify_all h ?st reqs)) i) = Some (int N)"
      using Cons.prems lt rest
      by (intro Cons.IH [OF _ m' k']) simp_all
    from ih res lt Cons.prems(5) show ?thesis
      by (simp add: split_beta upt_conv_Cons)
  qed
qed

lemma usage_set_status [simp]:
  "map_option usage_count (keys (set_status st k s) j) = map_option usage_count (keys st j)"
  "map_option last_used (keys (set_status st k s) j) = map_option last_used (keys st j)"
  by (simp_all add: keys_set_status option.map_comp comp_def)

lemma usage_record_failed_attempt [simp]:
  "map_option usage_count (keys (record_failed_attempt st t ip k) j) =
     map_option usage_count (keys st j)"
  "map_option last_used (keys (record_failed_attempt st t ip k) j) =
     map_option last_used (keys st j)"
  using keys_record_failed_attempt [of st t ip k j]
  by (auto simp: option.map_comp comp_def)

lemma db_rows_load [simp]:
  "db_rows (fst (load_key_from_db_by_api_key h st a)) = db_rows st"
  by (simp add: load_key_from_db_by_api_key_def Let_def split: option.splits)

lemma db_rows_resolve_key [simp]: "db_rows (fst (resolve_key h st req)) = db_rows st"
proof -
  obtain st' found where l: "load_key_from_db_by_api_key h st (api_key req) = (st', found)"
    by (cases "load_key_from_db_by_api_key h st (api_key req)") auto
  have "db_rows st' = db_rows st"
    using db_rows_load [of h st "api_key req"] l by simp
  then show ?thesis
    by (simp add: resolve_key_def l split: option.splits)
qed

lemma verify_key_rejected_usage:
  assumes a: "api_key req \<noteq> []" "prefix ''sk-'' (api_key req)"
    and r: "resolve_key h st req = (st1, Some (i, key_info))"
    and n: "snd (verify_key h st req) = None"
  shows "map_option usage_count (keys (fst (verify_key h st req)) j) =
           map_option usage_count (keys st1 j) \<and>
         map_option last_used (keys (fst (verify_key h st req)) j) =
           map_option last_used (keys st1 j)"
  using n unfolding verify_key_resolved [OF a r]
  by (simp split: if_splits)

lemma verify_key_db_rows_rejected:
  assumes a: "api_key req \<noteq> []" "prefix ''sk-'' (api_key req)"
    and r: "resolve_key h st req = (st1, Some (i, key_info))"
    and n: "snd (verify_key h st req) = None" and u: "\<not> usage_limit_reached key_info"
  shows "db_rows (fst (verify_key h st req)) = db_rows st"
proof -
  from r have "db_rows st1 = db_rows st"
    using db_rows_resolve_key [of h st req] by simp
  with n u show ?thesis
    unfolding verify_key_resolved [OF a r] by (simp split: if_splits)
qed

lemma status_set_status:
  "keys (set_status st k s) j = Some x \<Longrightarrow> s \<noteq> INACTIVE \<Longrightarrow> status x = INACTIVE \<Longrightarrow>
   \<exists>y. keys st j = Some y \<and> status y = INACTIVE"
  by (auto simp: keys_set_status split: if_splits)

lemma status_record_failed_attempt:
  "keys (record_failed_attempt st t ip k) j = Some x \<Longrightarrow> status x = INACTIVE \<Longrightarrow>
   \<exists>y. keys st j = Some y \<and> status y = INACTIVE"
  using keys_record_failed_attempt [of st t ip k j]
  by (cases "keys st k") (auto simp: eq_commute [of "Some x"])

lemma verify_key_no_inactive:
  assumes a: "api_key req \<noteq> []" "prefix ''sk-'' (api_key req)"
    and r: "resolve_key h st req = (st1, Some (i, key_info))"
    and u: "\<not> usage_limit_reached key_info"
    and x: "keys (fst (verify_key h st req)) j = Some x" "status x = INACTIVE"
  shows "\<exists>y. keys st1 j = Some y \<and> status y = INACTIVE"
proof -
  note k = resolve_key_keys [OF r]
  from x u show ?thesis
    unfolding verify_key_resolved [OF a r]
    by (auto simp: k split: if_splits
        dest: status_record_failed_attempt status_set_status)
qed

lemma verify_key_db_status:
  assumes a: "api_key req \<noteq> []" "prefix ''sk-'' (api_key req)"
    and r: "resolve_key h st req = (st1, Some (i, key_info))"
    and u: "\<not> usage_limit_reached key_info"
  shows "map_option (map status) (db_rows (fst (verify_key h st req))) =
         map_option (map status) (db_rows st)"
proof -
  from r have d: "db_rows st1 = db_rows st"
    using db_rows_resolve_key [of h st req] by simp
  have e: "map_option (map status) (db_rows (update_key_usage_in_db s k)) =
      map_option (map status) (db_rows s)" for s k
    by (auto simp: update_key_usage_in_db_def option.map_comp comp_def split: option.splits)
  from u show ?thesis
    unfolding verify_key_resolved [OF a r] by (simp add: d e)
qed

lemma verify_all_unlimited:
  assumes "\<forall>r \<in> set reqs. api_key r = a"
    and "memory_key_id h st a = Some i" and "keys st i = Some key_info"
    and "max_uses key_info = None \<or> max_uses key_info = Some 0"
    and "all_pass h st reqs"
  shows "map (map_option usage_count) (snd (verify_all h st reqs)) =
           map (\<lambda>j. Some (usage_count key_info + int j + 1)) [0..<length reqs] \<and>
         map_option status (keys (fst (verify_all h st reqs)) i) = Some (status key_info) \<and>
         map_option usage_count (keys (fst (verify_all h st reqs)) i) =
           Some (usage_count key_info + int (length reqs))"
  using assms
proof (induction reqs arbitrary: st key_info)
  case Nil
  then show ?case by simp
next
  case (Cons req reqs)
  from Cons.prems have a: "api_key req = a" and pass: "other_checks_pass h st req"
    and rest: "all_pass h (fst (verify_key h st req)) reqs"
    by simp_all
  from Cons.prems a have mem: "memory_key_id h st (api_key req) = Some i" by simp
  note r = resolve_key_memory [OF mem Cons.prems(3)]
  from Cons.prems(4) have free: "\<not> usage_limit_reached key_info"
    by (auto simp: usage_limit_reached_def)
  let ?used = "key_info\<lparr>last_used := Some (now req), usage_count := usage_count key_info + 1\<rparr>"
  let ?st = "fst (verify_key h st req)"
  from verify_key_pass(2) [OF pass r] free
  have res: "snd (verify_key h st req) = Some ?used" and k': "keys ?st i = Some ?used"
    by simp_all
  have m': "memory_key_id h ?st a = Some i"
    using verify_key_success_state [OF pass mem Cons.prems(3) free, of a] Cons.prems(2)
    by simp
  have u': "max_uses ?used = None \<or> max_uses ?used = Some 0"
    using Cons.prems(4) by simp
  have "\<forall>r \<in> set reqs. api_key r = a" using Cons.prems(1) by simp
  from Cons.IH [OF this m' k' u' rest]
  have ih: "map (map_option usage_count) (snd (verify_all h ?st reqs)) =
           map (\<lambda>j. Some (usage_count key_info + 1 + int j + 1)) [0..<length reqs] \<and>
         map_option status (keys (fst (verify_all h ?st reqs)) i) = Some (status key_info) \<and>
         map_option usage_count (keys (fst (verify_all h ?st reqs)) i) =
           Some (usage_count key_info + 1 + int (length reqs))"
    by simp
  have sh: "map (\<lambda>j. Some (usage_count key_info + int j + 1)) [0..<Suc (length reqs)] =
      Some (usage_count key_info + 1) #
        map (\<lambda>j. Some (usage_count key_info + 1 + int j + 1)) [0..<length reqs]"
    by (simp add: upt_conv_Cons map_Suc_upt [symmetric] del: upt_Suc)
  have l: "map (map_option usage_count) (snd (verify_all h st (req # reqs))) =
      Some (usage_count key_info + 1) #
        map (map_option usage_count) (snd (verify_all h ?st reqs))"
    using res by (simp add: split_beta)
  have f: "fst (verify_all h st (req # reqs)) = fst (verify_all h ?st reqs)"
    by (simp add: split_beta)
  have one: "map (map_option usage_count) (snd (verify_all h st (req # reqs))) =
      map (\<lambda>j. Some (usage_count key_info + int j + 1)) [0..<length (req # reqs)]"
    unfolding l ih [THEN conjunct1] using sh by simp
  have two: "map_option status (keys (fst (verify_all h st (req # reqs))) i) =
      Some (status key_info)"
    unfolding f using ih by blast
  have three: "map_option usage_count (keys (fst (verify_all h st (req # reqs))) i) =
      Some (usage_count key_info + int (length (req # reqs)))"
    unfolding f ih [THEN conjunct2, THEN conjunct2] by simp
  from one two three show ?case by blast
qed

lemma memory_key_id_Some:
  "memory_key_id h st a = Some i \<Longrightarrow> \<exists>key_info. keys st i = Some key_info"
  by (auto simp: memory_key_id_def Let_def split: option.splits if_splits)

lemma resolve_key_memory_state:
  assumes "memory_key_id h st (api_key req) = Some i"
    and "resolve_key h st req = (st1, found)"
  shows "st1 = st"
proof -
  from memory_key_id_Some [OF assms(1)] obtain key_info where "keys st i = Some key_info" ..
  from resolve_key_memory [OF assms(1) this] assms(2) show ?thesis by simp
qed

lemma ex_mem:
  "memory_key_id example_hashing (example_manager k) ''sk-demo'' = Some ''k1''"
  by (simp add: memory_key_id_def example_hashing_def example_manager_def)

lemma ex_keys: "keys (example_manager k) ''k1'' = Some k"
  by (simp add: example_manager_def)

lemma ex_pass3:
  "all_pass example_hashing (example_manager (example_key 0 (Some 2)))
     [example_request ''10.0.0.1'' 1000, example_request ''10.0.0.1'' 1001,
      example_request ''10.0.0.1'' 1002]"
  by code_simp

lemma ex_pass1:
  "other_checks_pass example_hashing (example_manager (example_key 1000000 (Some 0)))
     (example_request ''10.0.0.1'' 1000)"
  by code_simp

lemma ex_ip_rejected:
  "ip_rejected (example_request ''10.9.9.9'' 1000) (example_key 1 (Some 2))"
  by code_simp

lemma ex_api_key: "api_key (example_request ip t) = ''sk-demo''"
  by (simp add: example_request_def)

lemma ex_resolve:
  "resolve_key example_hashing (example_manager k) (example_request ip t) =
     (example_manager k, Some (''k1'', k))"
  by (rule resolve_key_memory) (simp_all add: ex_api_key ex_mem ex_keys)

lemma ex_checks:
  "hash_matches example_hashing (example_request ''10.9.9.9'' 1000) (example_key 1 (Some 2)) \<and>
   status (example_key 1 (Some 2)) = ACTIVE \<and>
   \<not> expired (example_request ''10.9.9.9'' 1000) (example_key 1 (Some 2)) \<and>
   \<not> usage_limit_reached (example_key 1 (Some 2)) \<and>
   ip_rejected (example_request ''10.9.9.9'' 1000) (example_key 1 (Some 2))"
  by code_simp

text \<open>
  Claim C3. For a key with \<open>max_uses = N \<ge> 1\<close>: an attempt that passes all other checks
  succeeds and adds 1 to \<open>usage_count\<close> when \<open>usage_count < N\<close>, and is rejected (no key
  returned) with the status set to inactive when \<open>usage_count \<ge> N\<close>. Hence, from
  \<open>usage_count = 0\<close>, of \<open>N + 1\<close> successive attempts that pass all other checks the first
  \<open>N\<close> succeed, returning the counts \<open>1, ..., N\<close>, and the last is rejected and leaves the
  key inactive with \<open>usage_count = N\<close>.
\<close>

theorem usage_limit_exact:
  "(resolve_key h st req = (st1, Some (i, key_info)) \<and> other_checks_pass h st req \<and>
      max_uses key_info = Some (int N) \<and> 1 \<le> N \<longrightarrow>
      (usage_count key_info < int N \<longrightarrow>
         snd (verify_key h st req) =
           Some (key_info\<lparr>last_used := Some (now req), usage_count := usage_count key_info + 1\<rparr>) \<and>
         keys (fst (verify_key h st req)) i =
           Some (key_info\<lparr>last_used := Some (now req), usage_count := usage_count key_info + 1\<rparr>)) \<and>
      (int N \<le> usage_count key_info \<longrightarrow>
         snd (verify_key h st req) = None \<and>
         keys (fst (verify_key h st req)) i = Some (key_info\<lparr>status := INACTIVE\<rparr>))) \<and>
   ((\<forall>r \<in> set reqs. api_key r = a) \<and> memory_key_id h st a = Some i \<and>
      keys st i = Some key_info \<and> max_uses key_info = Some (int N) \<and> 1 \<le> N \<and>
      usage_count key_info = 0 \<and> length reqs = N + 1 \<and> all_pass h st reqs \<longrightarrow>
      map (map_option usage_count) (snd (verify_all h st reqs)) =
        map (\<lambda>j. Some (int j + 1)) [0..<N] @ [None] \<and>
      map_option status (keys (fst (verify_all h st reqs)) i) = Some INACTIVE \<and>
      map_option usage_count (keys (fst (verify_all h st reqs)) i) = Some (int N))"
proof (intro conjI impI)
  assume s: "resolve_key h st req = (st1, Some (i, key_info)) \<and> other_checks_pass h st req \<and>
      max_uses key_info = Some (int N) \<and> 1 \<le> N"
  then have r: "resolve_key h st req = (st1, Some (i, key_info))"
    and p: "other_checks_pass h st req" and m: "max_uses key_info = Some (int N)" "1 \<le> N"
    by simp_all
  note step = verify_key_pass [OF p r]
  {
    assume "usage_count key_info < int N"
    with m have f: "\<not> usage_limit_reached key_info" by (simp add: usage_limit_reached_def)
    from step(2) f show "snd (verify_key h st req) =
           Some (key_info\<lparr>last_used := Some (now req), usage_count := usage_count key_info + 1\<rparr>)"
      by simp
    from step(2) f show "keys (fst (verify_key h st req)) i =
           Some (key_info\<lparr>last_used := Some (now req), usage_count := usage_count key_info + 1\<rparr>)"
      by simp
  }
  {
    assume "int N \<le> usage_count key_info"
    with m have f: "usage_limit_reached key_info" by (simp add: usage_limit_reached_def)
    from step(1) f show "snd (verify_key h st req) = None" by simp
    from step(1) f show "keys (fst (verify_key h st req)) i = Some (key_info\<lparr>status := INACTIVE\<rparr>)"
      by simp
  }
next
  assume s: "(\<forall>r \<in> set reqs. api_key r = a) \<and> memory_key_id h st a = Some i \<and>
      keys st i = Some key_info \<and> max_uses key_info = Some (int N) \<and> 1 \<le> N \<and>
      usage_count key_info = 0 \<and> length reqs = N + 1 \<and> all_pass h st reqs"
  then have c: "map (map_option usage_count) (snd (verify_all h st reqs)) =
           map (\<lambda>j. Some (int j + 1)) [0..<N] @ [None] \<and>
         map_option status (keys (fst (verify_all h st reqs)) i) = Some INACTIVE \<and>
         map_option usage_count (keys (fst (verify_all h st reqs)) i) = Some (int N)"
    by (intro verify_all_counts [where c = 0 and a = a and key_info = key_info]) simp_all
  from c show "map (map_option usage_count) (snd (verify_all h st reqs)) =
        map (\<lambda>j. Some (int j + 1)) [0..<N] @ [None]" by simp
  from c show "map_option status (keys (fst (verify_all h st reqs)) i) = Some INACTIVE" by simp
  from c show "map_option usage_count (keys (fst (verify_all h st reqs)) i) = Some (int N)" by simp
qed

theorem usage_limit_exact_witness:
  "all_pass example_hashing (example_manager (example_key 0 (Some 2)))
     [example_request ''10.0.0.1'' 1000, example_request ''10.0.0.1'' 1001,
      example_request ''10.0.0.1'' 1002] \<and>
   map (map_option usage_count)
     (snd (verify_all example_hashing (example_manager (example_key 0 (Some 2)))
        [example_request ''10.0.0.1'' 1000, example_request ''10.0.0.1'' 1001,
         example_request ''10.0.0.1'' 1002])) = [Some 1, Some 2, None] \<and>
   map_option status
     (keys (fst (verify_all example_hashing (example_manager (example_key 0 (Some 2)))
        [example_request ''10.0.0.1'' 1000, example_request ''10.0.0.1'' 1001,
         example_request ''10.0.0.1'' 1002])) ''k1'') = Some INACTIVE"
proof -
  let ?reqs = "[example_request ''10.0.0.1'' 1000, example_request ''10.0.0.1'' 1001,
      example_request ''10.0.0.1'' 1002]"
  let ?k = "example_key 0 (Some 2)"
  have h: "(\<forall>r \<in> set ?reqs. api_key r = ''sk-demo'') \<and>
      memory_key_id example_hashing (example_manager ?k) ''sk-demo'' = Some ''k1'' \<and>
      keys (example_manager ?k) ''k1'' = Some ?k \<and> max_uses ?k = Some (int 2) \<and> 1 \<le> (2::nat) \<and>
      usage_count ?k = 0 \<and> length ?reqs = 2 + 1 \<and>
      all_pass example_hashing (example_manager ?k) ?reqs"
    using ex_pass3 by (simp add: ex_api_key ex_mem ex_keys example_key_def)
  have u: "map (\<lambda>j. Some (int j + 1)) [0..<2] @ [None] = [Some 1, Some 2, None]"
    by (simp add: upt_conv_Cons)
  from usage_limit_exact [of example_hashing "example_manager ?k" "example_request ''10.0.0.1'' 1000"
      "example_manager ?k" "''k1''" ?k 2 ?reqs "''sk-demo''", THEN conjunct2, rule_format, OF h]
  show ?thesis using ex_pass3 unfolding u by blast
qed

text \<open>
  Claim C4. When \<open>verify_key\<close> rejects a request because the IP is not in \<open>allowed_ips\<close>,
  the User-Agent matches no entry of \<open>allowed_user_agents\<close> or the rate limit is
  exceeded, it returns no key and leaves \<open>usage_count\<close> and \<open>last_used\<close> of the key, and
  the database rows, as they were; more generally no rejection changes these two fields
  of any key, and a call that returns a key has added exactly 1 to its \<open>usage_count\<close>.
  For a key found in memory the resolved state is the state before the call.
\<close>

theorem rejected_request_keeps_usage:
  assumes a: "api_key req \<noteq> []" "prefix ''sk-'' (api_key req)"
    and r: "resolve_key h st req = (st1, Some (i, key_info))"
  shows
   "(hash_matches h req key_info \<and> status key_info = ACTIVE \<and> \<not> expired req key_info \<and>
     \<not> usage_limit_reached key_info \<and>
     (ip_rejected req key_info \<or> user_agent_rejected req key_info \<or>
      \<not> fst (check_rate_limit st1 (now req) i (rate_limit_per_minute key_info))) \<longrightarrow>
       snd (verify_key h st req) = None \<and>
       map_option usage_count (keys (fst (verify_key h st req)) i) = Some (usage_count key_info) \<and>
       map_option last_used (keys (fst (verify_key h st req)) i) = Some (last_used key_info) \<and>
       db_rows (fst (verify_key h st req)) = db_rows st) \<and>
    (snd (verify_key h st req) = None \<longrightarrow>
       (\<forall>j. map_option usage_count (keys (fst (verify_key h st req)) j) =
              map_option usage_count (keys st1 j) \<and>
            map_option last_used (keys (fst (verify_key h st req)) j) =
              map_option last_used (keys st1 j))) \<and>
    (\<forall>used. snd (verify_key h st req) = Some used \<longrightarrow>
       usage_count used = usage_count key_info + 1 \<and>
       keys (fst (verify_key h st req)) i = Some used) \<and>
    (memory_key_id h st (api_key req) = Some i \<longrightarrow> st1 = st)"
proof (intro conjI impI allI)
  assume c: "hash_matches h req key_info \<and> status key_info = ACTIVE \<and> \<not> expired req key_info \<and>
     \<not> usage_limit_reached key_info \<and>
     (ip_rejected req key_info \<or> user_agent_rejected req key_info \<or>
      \<not> fst (check_rate_limit st1 (now req) i (rate_limit_per_minute key_info)))"
  then have n: "snd (verify_key h st req) = None"
    unfolding verify_key_resolved [OF a r] by auto
  then show "snd (verify_key h st req) = None" .
  from verify_key_rejected_usage [OF a r n, of i] resolve_key_keys [OF r]
  show "map_option usage_count (keys (fst (verify_key h st req)) i) = Some (usage_count key_info)"
    and "map_option last_used (keys (fst (verify_key h st req)) i) = Some (last_used key_info)"
    by simp_all
  from c verify_key_db_rows_rejected [OF a r n]
  show "db_rows (fst (verify_key h st req)) = db_rows st" by simp
next
  fix j
  assume n: "snd (verify_key h st req) = None"
  from verify_key_rejected_usage [OF a r n, of j]
  show "map_option usage_count (keys (fst (verify_key h st req)) j) =
      map_option usage_count (keys st1 j)"
    and "map_option last_used (keys (fst (verify_key h st req)) j) =
      map_option last_used (keys st1 j)"
    by simp_all
next
  fix used
  assume s: "snd (verify_key h st req) = Some used"
  then show "usage_count used = usage_count key_info + 1"
    unfolding verify_key_resolved [OF a r] by (auto split: if_splits)
  from s show "keys (fst (verify_key h st req)) i = Some used"
    unfolding verify_key_resolved [OF a r] by (auto split: if_splits)
next
  assume "memory_key_id h st (api_key req) = Some i"
  from resolve_key_memory_state [OF this r] show "st1 = st" .
qed

theorem rejected_request_keeps_usage_witness:
  "ip_rejected (example_request ''10.9.9.9'' 1000) (example_key 1 (Some 2)) \<and>
   snd (verify_key example_hashing (example_manager (example_key 1 (Some 2)))
     (example_request ''10.9.9.9'' 1000)) = None \<and>
   map_option usage_count
     (keys (fst (verify_key example_hashing (example_manager (example_key 1 (Some 2)))
        (example_request ''10.9.9.9'' 1000))) ''k1'') = Some 1 \<and>
   map_option last_used
     (keys (fst (verify_key example_hashing (example_manager (example_key 1 (Some 2)))
        (example_request ''10.9.9.9'' 1000))) ''k1'') = Some None"
proof -
  let ?k = "example_key 1 (Some 2)"
  let ?req = "example_request ''10.9.9.9'' 1000"
  have a: "api_key ?req \<noteq> []" "prefix ''sk-'' (api_key ?req)"
    by (simp_all add: ex_api_key)
  have c: "hash_matches example_hashing ?req ?k \<and> status ?k = ACTIVE \<and> \<not> expired ?req ?k \<and>
     \<not> usage_limit_reached ?k \<and>
     (ip_rejected ?req ?k \<or> user_agent_rejected ?req ?k \<or>
      \<not> fst (check_rate_limit (example_manager ?k) (now ?req) ''k1'' (rate_limit_per_minute ?k)))"
    using ex_checks by blast
  have f: "usage_count ?k = 1" "last_used ?k = None" by (simp_all add: example_key_def)
  from rejected_request_keeps_usage [OF a ex_resolve, THEN conjunct1, rule_format, OF c]
  show ?thesis using ex_checks unfolding f by blast
qed

text \<open>
  Claim C10. For a key whose \<open>max_uses\<close> is \<open>None\<close> or 0 the usage limit is never
  reached, whatever \<open>usage_count\<close> is: an attempt that passes the other checks succeeds,
  no call sets a key or a database row to inactive, and any number of successive
  attempts that pass the other checks all succeed, each adding 1 to \<open>usage_count\<close>.
\<close>

theorem falsy_max_uses_unlimited:
  assumes m: "max_uses key_info = None \<or> max_uses key_info = Some 0"
  shows
   "\<not> usage_limit_reached key_info \<and>
    (api_key req \<noteq> [] \<and> prefix ''sk-'' (api_key req) \<and>
     resolve_key h st req = (st1, Some (i, key_info)) \<longrightarrow>
       (other_checks_pass h st req \<longrightarrow>
          snd (verify_key h st req) =
            Some (key_info\<lparr>last_used := Some (now req), usage_count := usage_count key_info + 1\<rparr>)) \<and>
       (\<forall>j x. keys (fst (verify_key h st req)) j = Some x \<and> status x = INACTIVE \<longrightarrow>
          (\<exists>y. keys st1 j = Some y \<and> status y = INACTIVE)) \<and>
       map_option (map status) (db_rows (fst (verify_key h st req))) =
         map_option (map status) (db_rows st)) \<and>
    ((\<forall>r \<in> set reqs. api_key r = a) \<and> memory_key_id h st a = Some i \<and>
     keys st i = Some key_info \<and> all_pass h st reqs \<longrightarrow>
       map (map_option usage_count) (snd (verify_all h st reqs)) =
         map (\<lambda>j. Some (usage_count key_info + int j + 1)) [0..<length reqs] \<and>
       map_option status (keys (fst (verify_all h st reqs)) i) = Some (status key_info) \<and>
       map_option usage_count (keys (fst (verify_all h st reqs)) i) =
         Some (usage_count key_info + int (length reqs)))"
proof -
  from m have free: "\<not> usage_limit_reached key_info"
    by (auto simp: usage_limit_reached_def)
  have one: "(other_checks_pass h st req \<longrightarrow>
          snd (verify_key h st req) =
            Some (key_info\<lparr>last_used := Some (now req), usage_count := usage_count key_info + 1\<rparr>)) \<and>
       (\<forall>j x. keys (fst (verify_key h st req)) j = Some x \<and> status x = INACTIVE \<longrightarrow>
          (\<exists>y. keys st1 j = Some y \<and> status y = INACTIVE)) \<and>
       map_option (map status) (db_rows (fst (verify_key h st req))) =
         map_option (map status) (db_rows st)"
    if a: "api_key req \<noteq> []" "prefix ''sk-'' (api_key req)"
      and r: "resolve_key h st req = (st1, Some (i, key_info))"
  proof (intro conjI impI allI)
    assume "other_checks_pass h st req"
    from verify_key_pass(2) [OF this r] free
    show "snd (verify_key h st req) =
        Some (key_info\<lparr>last_used := Some (now req), usage_count := usage_count key_info + 1\<rparr>)"
      by simp
  next
    fix j x
    assume "keys (fst (verify_key h st req)) j = Some x \<and> status x = INACTIVE"
    then show "\<exists>y. keys st1 j = Some y \<and> status y = INACTIVE"
      using verify_key_no_inactive [OF a r free] by blast
  next
    show "map_option (map status) (db_rows (fst (verify_key h st req))) =
        map_option (map status) (db_rows st)"
      by (rule verify_key_db_status [OF a r free])
  qed
  have two: "map (map_option usage_count) (snd (verify_all h st reqs)) =
         map (\<lambda>j. Some (usage_count key_info + int j + 1)) [0..<length reqs] \<and>
       map_option status (keys (fst (verify_all h st reqs)) i) = Some (status key_info) \<and>
       map_option usage_count (keys (fst (verify_all h st reqs)) i) =
         Some (usage_count key_info + int (length reqs))"
    if "\<forall>r \<in> set reqs. api_key r = a" "memory_key_id h st a = Some i"
      "keys st i = Some key_info" "all_pass h st reqs"
    using that(1,2,3) m that(4) by (rule verify_all_unlimited)
  from free one two show ?thesis by blast
qed

theorem falsy_max_uses_unlimited_witness:
  "max_uses (example_key 1000000 (Some 0)) = Some 0 \<and>
   other_checks_pass example_hashing (example_manager (example_key 1000000 (Some 0)))
     (example_request ''10.0.0.1'' 1000) \<and>
   snd (verify_key example_hashing (example_manager (example_key 1000000 (Some 0)))
     (example_request ''10.0.0.1'' 1000)) =
     Some (example_key 1000000 (Some 0)\<lparr>last_used := Some 1000, usage_count := 1000001\<rparr>)"
proof -
  let ?k = "example_key 1000000 (Some 0)"
  let ?req = "example_request ''10.0.0.1'' 1000"
  have m: "max_uses ?k = Some 0" by (simp add: example_key_def)
  then have m': "max_uses ?k = None \<or> max_uses ?k = Some 0" by simp
  have a: "api_key ?req \<noteq> [] \<and> prefix ''sk-'' (api_key ?req) \<and>
     resolve_key example_hashing (example_manager ?k) ?req = (example_manager ?k, Some (''k1'', ?k))"
    by (simp add: ex_api_key ex_resolve)
  have n: "now ?req = 1000" "usage_count ?k + 1 = 1000001"
    by (simp_all add: example_request_def example_key_def)
  from falsy_max_uses_unlimited [OF m', of ?req example_hashing "example_manager ?k"
      "example_manager ?k" "''k1''" "[]" "''sk-demo''", THEN conjunct2, THEN conjunct1, rule_format,
      OF a, THEN conjunct1, rule_format, OF ex_pass1]
  show ?thesis using m ex_pass1 unfolding n by blast
qed

end
